theory Spec2Isabelle
  imports Complex_Main "HOL-Library.Word"
begin

unbundle bit_operations_syntax

section \<open>Machine integers of the C sources\<close>

text \<open>
  The program is written for an LP64 platform: \<open>size_t\<close> is an unsigned 64-bit integer
  and \<open>int\<close> (also the suffix-array index type \<open>saidx_t\<close>) a signed 32-bit one.
  The integers of the statistics of \<open>process.c\<close> are embedded over \<open>nat\<close> with the
  reduction modulo \<open>2 ^ 64\<close> written where a \<open>size_t\<close> operation can exceed the range;
  the anchor finder is embedded over \<open>64 word\<close>, whose arithmetic wraps as \<open>size_t\<close>
  does.
\<close>

type_synonym size_t = "64 word"
type_synonym saidx_t = "32 word"
type_synonym c_int = "32 word"

section \<open>Random-match statistics (process.c)\<close>

subsection \<open>binomial_coefficient\<close>

text \<open>
  The loop \<open>for (size_t i = 1; i <= k; i++) { res *= n - k + i; res /= i; }\<close>.
  At loop entry \<open>k \<le> n - k\<close>, so the counter \<open>i\<close> stays below \<open>2 ^ 63\<close> and \<open>n - k + i\<close>
  is at most \<open>n\<close>: only the product can leave the range of \<open>size_t\<close>.
\<close>

function binomial_loop :: "nat \<Rightarrow> nat \<Rightarrow> nat \<Rightarrow> nat \<Rightarrow> nat" where
  "binomial_loop n k i res =
     (if i \<le> k
      then binomial_loop n k (i + 1) (((res * (n - k + i)) mod 2 ^ 64) div i)
      else res)"
  by pat_completeness auto
termination
  by (relation "measure (\<lambda>(n, k, i, res). k + 1 - i)") auto

definition binomial_coefficient :: "nat \<Rightarrow> nat \<Rightarrow> nat" where
  "binomial_coefficient n k =
     (if n \<le> 0 \<or> k > n then 0
      else if k = 0 \<or> k = n then 1
      else binomial_loop n (if k > n - k then n - k else k) 1 1)"

subsection \<open>Double arithmetic\<close>

text \<open>
  A finite \<open>double\<close> is the real number it denotes, so the comparisons of the code
  are the comparisons of \<open>real\<close>, and the constants \<open>0.0\<close>, \<open>0.5\<close>, \<open>1\<close> and \<open>2\<close>
  are themselves. The arithmetic of \<open>double\<close> rounds, and \<open>pow\<close> is a function of the
  C library: addition, subtraction, multiplication, division, \<open>pow\<close> and the conversion
  of a \<open>size_t\<close> are parameters of the embedding, of which nothing is assumed.
  Infinities and NaN are outside the embedding.
\<close>

record double_ops =
  d_add :: "real \<Rightarrow> real \<Rightarrow> real"
  d_sub :: "real \<Rightarrow> real \<Rightarrow> real"
  d_mul :: "real \<Rightarrow> real \<Rightarrow> real"
  d_div :: "real \<Rightarrow> real \<Rightarrow> real"
  d_pow :: "real \<Rightarrow> real \<Rightarrow> real"
  d_of_size_t :: "nat \<Rightarrow> real"

subsection \<open>shuprop\<close>

text \<open>
  The loop \<open>for (k = 0; k <= x; k++)\<close> with its running sum \<open>s\<close>; the counter does not
  wrap for \<open>x < 2 ^ 64 - 1\<close>. The operations are applied in the order of the source:
  \<open>t = pow(p, kk) * pow(0.5 - p, xx - kk)\<close> and
  \<open>s += pow(2, xx) * (t * pow(1 - t, ll)) * (double)binomial_coefficient(x, k)\<close>.
\<close>

function shuprop_loop :: "double_ops \<Rightarrow> nat \<Rightarrow> real \<Rightarrow> nat \<Rightarrow> nat \<Rightarrow> real \<Rightarrow> real" where
  "shuprop_loop D x p l k s =
     (if k \<le> x
      then (let xx = d_of_size_t D x;
                ll = d_of_size_t D l;
                kk = d_of_size_t D k;
                t = d_mul D (d_pow D p kk) (d_pow D (d_sub D 0.5 p) (d_sub D xx kk));
                s' = d_add D s
                       (d_mul D (d_mul D (d_pow D 2 xx) (d_mul D t (d_pow D (d_sub D 1 t) ll)))
                          (d_of_size_t D (binomial_coefficient x k)))
            in if s' \<ge> 1.0 then 1.0 else shuprop_loop D x p l (k + 1) s')
      else s)"
  by pat_completeness auto
termination
  by (relation "measure (\<lambda>(D, x, p, l, k, s). x + 1 - k)") auto

definition shuprop :: "double_ops \<Rightarrow> nat \<Rightarrow> real \<Rightarrow> nat \<Rightarrow> real" where
  "shuprop D x p l = shuprop_loop D x p l 0 0.0"

subsection \<open>minAnchorLength\<close>

text \<open>
  The loop \<open>while (prop < 1 - p) { prop = shuprop(x, g / 2, l); x++; }\<close>. Nothing bounds
  the number of its iterations, so the embedding is a partial function: \<open>None\<close> is the
  loop that does not end.
\<close>

partial_function (option) minAnchorLength_loop ::
  "double_ops \<Rightarrow> real \<Rightarrow> real \<Rightarrow> nat \<Rightarrow> real \<Rightarrow> nat \<Rightarrow> nat option" where
  "minAnchorLength_loop D p g l prop x =
     (if prop < d_sub D 1 p
      then minAnchorLength_loop D p g l (shuprop D x (d_div D g 2) l) ((x + 1) mod 2 ^ 64)
      else Some x)"

definition minAnchorLength :: "double_ops \<Rightarrow> real \<Rightarrow> real \<Rightarrow> nat \<Rightarrow> nat option" where
  "minAnchorLength D p g l = minAnchorLength_loop D p g l 0.0 1"

section \<open>Command-line options (tummer.c)\<close>

text \<open>
  The flag bits \<open>F_FORWARD\<close>, \<open>F_REVCOMP\<close>, ... are declared in \<open>global.h\<close>, which
  is not among the sources: they are a parameter of the embedding.
\<close>

record flag_bits =
  F_FORWARD :: c_int
  F_REVCOMP :: c_int
  F_JOIN :: c_int
  F_VERBOSE :: c_int
  F_EXTRA_VERBOSE :: c_int

text \<open>The global variables of \<open>tummer.c\<close>, and \<open>version_flag\<close> of \<open>main\<close>.\<close>

record globals =
  FLAGS :: c_int
  RANDOM_ANCHOR_PROP :: real
  MIN_LENGTH :: c_int
  version_flag :: bool

definition initial_globals :: "flag_bits \<Rightarrow> globals" where
  "initial_globals F =
     \<lparr>FLAGS = F_FORWARD F, RANDOM_ANCHOR_PROP = 5 / 100, MIN_LENGTH = 0, version_flag = False\<rparr>"

text \<open>
  What one call of \<open>getopt_long\<close> hands to the \<open>switch\<close>: the option found, for \<open>-p\<close>
  the outcome of \<open>strtod\<close> on its argument and for \<open>-l\<close> the outcome of \<open>strtoul\<close>
  (\<open>None\<close> when \<open>errno\<close> is set, nothing was converted or characters are left over).
  \<open>--version\<close> is stored through its flag pointer and returns 0.
\<close>

datatype getopt_result =
  Long_version | Opt_b | Opt_h | Opt_j | Opt_r | Opt_v
  | Opt_p "real option" | Opt_l "nat option" | Opt_unknown

datatype exit_status = EXIT_SUCCESS

text \<open>
  The body of the \<open>switch\<close>. \<open>usage()\<close> prints and exits. The assignment
  \<open>MIN_LENGTH = length\<close> converts an \<open>unsigned long\<close> to \<open>int\<close>, keeping the low 32 bits.
\<close>

fun parse_option :: "flag_bits \<Rightarrow> getopt_result \<Rightarrow> globals \<Rightarrow> exit_status + globals" where
  "parse_option F Long_version g = Inr (g\<lparr>version_flag := True\<rparr>)"
| "parse_option F Opt_b g = Inr (g\<lparr>FLAGS := FLAGS g OR (F_FORWARD F OR F_REVCOMP F)\<rparr>)"
| "parse_option F Opt_h g = Inl EXIT_SUCCESS"
| "parse_option F Opt_j g = Inr (g\<lparr>FLAGS := FLAGS g OR F_JOIN F\<rparr>)"
| "parse_option F Opt_r g =
     Inr (g\<lparr>FLAGS := (FLAGS g AND NOT (F_FORWARD F)) OR F_REVCOMP F\<rparr>)"
| "parse_option F Opt_v g =
     Inr (g\<lparr>FLAGS := FLAGS g OR
            (if (FLAGS g AND F_VERBOSE F) \<noteq> 0 then F_EXTRA_VERBOSE F else F_VERBOSE F)\<rparr>)"
| "parse_option F (Opt_p None) g = Inr g"
| "parse_option F (Opt_p (Some prop)) g =
     (if prop < 0 \<or> prop > 1 then Inr g else Inr (g\<lparr>RANDOM_ANCHOR_PROP := prop\<rparr>))"
| "parse_option F (Opt_l None) g = Inr g"
| "parse_option F (Opt_l (Some len)) g = Inr (g\<lparr>MIN_LENGTH := of_nat len\<rparr>)"
| "parse_option F Opt_unknown g = Inl EXIT_SUCCESS"

text \<open>The loop \<open>while (1)\<close> around the \<open>switch\<close>, over the options in command-line order.\<close>

fun parse_arguments :: "flag_bits \<Rightarrow> getopt_result list \<Rightarrow> globals \<Rightarrow> exit_status + globals" where
  "parse_arguments F [] g = Inr g"
| "parse_arguments F (c # cs) g =
     (case parse_option F c g of
        Inl e \<Rightarrow> Inl e
      | Inr g' \<Rightarrow> parse_arguments F cs g')"

text \<open>The tests \<open>FLAGS & F_FORWARD\<close> and \<open>FLAGS & F_REVCOMP\<close> of \<open>run\<close>.\<close>

definition forward_pass :: "flag_bits \<Rightarrow> globals \<Rightarrow> bool" where
  "forward_pass F g \<longleftrightarrow> (FLAGS g AND F_FORWARD F) \<noteq> 0"

definition revcomp_pass :: "flag_bits \<Rightarrow> globals \<Rightarrow> bool" where
  "revcomp_pass F g \<longleftrightarrow> (FLAGS g AND F_REVCOMP F) \<noteq> 0"

text \<open>
  What the embedding asks of the flag bits: the two pass flags are not zero, and the
  forward flag shares no bit with the other flags that the options set.
\<close>

definition flag_bits_distinct :: "flag_bits \<Rightarrow> bool" where
  "flag_bits_distinct F \<longleftrightarrow>
     F_FORWARD F \<noteq> 0 \<and> F_REVCOMP F \<noteq> 0
     \<and> (F_REVCOMP F AND F_FORWARD F) = 0
     \<and> (F_JOIN F AND F_FORWARD F) = 0
     \<and> (F_VERBOSE F AND F_FORWARD F) = 0
     \<and> (F_EXTRA_VERBOSE F AND F_FORWARD F) = 0"

section \<open>Reading the input files (io.c, tummer.c)\<close>

subsection \<open>The sequence name in join mode\<close>

text \<open>
  C strings are lists of characters without the terminating NUL; a pointer into a
  string is the suffix it points to, and \<open>NULL\<close> is \<open>None\<close>. The three library
  functions used by \<open>read_fasta_join\<close>:
  \<open>strrchr\<close> finds the last occurrence of a character, \<open>strchrnul\<close> the first one or
  else the end of the string, and \<open>strndup\<close> copies at most \<open>n\<close> characters.
\<close>

fun strrchr :: "string \<Rightarrow> char \<Rightarrow> string option" where
  "strrchr [] c = None"
| "strrchr (x # xs) c =
     (case strrchr xs c of
        Some p \<Rightarrow> Some p
      | None \<Rightarrow> if x = c then Some (x # xs) else None)"

fun strchrnul :: "string \<Rightarrow> char \<Rightarrow> string" where
  "strchrnul [] c = []"
| "strchrnul (x # xs) c = (if x = c then x # xs else strchrnul xs c)"

definition strndup :: "string \<Rightarrow> nat \<Rightarrow> string" where
  "strndup s n = take n s"

text \<open>
  The name computed by \<open>read_fasta_join\<close>: \<open>left\<close> is one to the right of the last
  path separator, \<open>dot\<close> points to the first \<open>.\<close> of \<open>left\<close>, and \<open>dot - left\<close>
  characters are copied.
\<close>

definition join_name :: "string \<Rightarrow> string" where
  "join_name file_name =
     (let left = (case strrchr file_name CHR ''/'' of
                    None \<Rightarrow> file_name
                  | Some p \<Rightarrow> tl p);
          dot = strchrnul left CHR ''.''
      in strndup left (length left - length dot))"

text \<open>
  The words of the specification for the same name, to compare with: the basename is
  the part of the path after its last \<open>/\<close> (the whole path when it has none), and the
  extension of a file name is its last \<open>.\<close> with what follows it.
\<close>

definition basename_spec :: "string \<Rightarrow> string" where
  "basename_spec path = rev (takeWhile (\<lambda>x. x \<noteq> CHR ''/'') (rev path))"

definition strip_extension_spec :: "string \<Rightarrow> string" where
  "strip_extension_spec fname =
     (if CHR ''.'' \<in> set fname
      then rev (tl (dropWhile (\<lambda>x. x \<noteq> CHR ''.'') (rev fname)))
      else fname)"

record seq_t =
  seq_S :: string
  seq_name :: string

text \<open>
  \<open>read_fasta_join\<close> reads the sequences of one file into \<open>single\<close>, returns without a
  push when there is none, and otherwise pushes their join under the computed name.
  The FASTA reader and \<open>dsa_join\<close> (sequence.c) are parameters; of the structure
  \<open>seq_t\<close> the fields \<open>S\<close> and \<open>name\<close> are kept, under the prefix \<open>seq_\<close>.
\<close>

definition read_fasta_join ::
  "(string \<Rightarrow> seq_t list) \<Rightarrow> (seq_t list \<Rightarrow> seq_t) \<Rightarrow> string \<Rightarrow> seq_t list \<Rightarrow> seq_t list" where
  "read_fasta_join read_fasta dsa_join file_name dsa =
     (let single = read_fasta file_name
      in if length single = 0 then dsa
         else let joined = dsa_join single
              in dsa @ [joined\<lparr>seq_name := join_name file_name\<rparr>])"

subsection \<open>The file loop of main\<close>

text \<open>
  \<open>read_fasta\<close> reads standard input when the file name is \<open>-\<close> and opens the path
  otherwise.
\<close>

datatype source = STDIN_FILENO | Opened string

definition read_source :: "string \<Rightarrow> source" where
  "read_source file_name = (if file_name = ''-'' then STDIN_FILENO else Opened file_name)"

datatype read_call = Read_fasta string | Read_fasta_join string

datatype fatal = Errx_join_needs_file

text \<open>
  The loop \<open>for (;; minfiles--)\<close> over the remaining arguments \<open>argv\<close>; its effect is
  the sequence of reader calls it makes, in order.
\<close>

function parse_all_files :: "bool \<Rightarrow> int \<Rightarrow> string list \<Rightarrow> read_call list" where
  "parse_all_files join minfiles argv =
     (case argv of
        [] \<Rightarrow>
          if minfiles \<le> 0 then []
          else (if join then Read_fasta_join ''-'' else Read_fasta ''-'')
                 # parse_all_files join (minfiles - 1) []
      | file_name # rest \<Rightarrow>
          (if join then Read_fasta_join file_name else Read_fasta file_name)
            # parse_all_files join (minfiles - 1) rest)"
  by pat_completeness auto
termination
  by (relation "measures [\<lambda>(join, minfiles, argv). length argv,
                          \<lambda>(join, minfiles, argv). nat minfiles]") auto

definition main_files :: "bool \<Rightarrow> string list \<Rightarrow> fatal + read_call list" where
  "main_files join argv =
     (if join \<and> length argv = 0 then Inl Errx_join_needs_file
      else Inr (parse_all_files join (if join then 2 else 1) argv))"

section \<open>Anchor finder (process.c)\<close>

subsection \<open>The enhanced suffix array as dist_anchor sees it\<close>

text \<open>
  Modelled from the spec: \<open>esa.h\<close> and \<open>esa.c\<close> are not among the sources. An LCP
  interval \<open>lcp_inter_t\<close> has the fields \<open>l\<close>, \<open>i\<close> and \<open>j\<close> (length and bounds), and
  \<open>esa_s\<close> the subject \<open>S\<close>, its suffix array \<open>SA\<close> and its length \<open>len\<close>, all of the
  index type \<open>saidx_t\<close>. The field names carry the prefix of their structure, since
  a field named \<open>i\<close> or \<open>l\<close> would capture these variable names everywhere after it.
  The lookup \<open>get_match_cached\<close> is a parameter of \<open>dist_anchor\<close>.
\<close>

record lcp_inter_t =
  inter_l :: saidx_t
  inter_i :: saidx_t
  inter_j :: saidx_t

record esa_s =
  esa_S :: string
  esa_SA :: "saidx_t list"
  esa_len :: saidx_t

text \<open>
  Array reads. C gives no meaning to a read outside the array: the embedding returns
  a fault naming the array and the index, and stops.
\<close>

datatype fault =
  Read_outside_S size_t | Read_outside_SA saidx_t | Read_outside_query size_t

definition read_S :: "esa_s \<Rightarrow> size_t \<Rightarrow> fault + char" where
  "read_S C idx =
     (if unat idx < length (esa_S C) then Inr (esa_S C ! unat idx) else Inl (Read_outside_S idx))"

definition read_SA :: "esa_s \<Rightarrow> saidx_t \<Rightarrow> fault + saidx_t" where
  "read_SA C idx =
     (if 0 \<le> sint idx \<and> nat (sint idx) < length (esa_SA C)
      then Inr (esa_SA C ! nat (sint idx)) else Inl (Read_outside_SA idx))"

definition read_query :: "string \<Rightarrow> size_t \<Rightarrow> fault + char" where
  "read_query query idx =
     (if unat idx < length query then Inr (query ! unat idx) else Inl (Read_outside_query idx))"

subsection \<open>Output lines\<close>

text \<open>
  \<open>printf\<close> with the conversion \<open>%zu\<close> and a minimum field width: the decimal digits
  of the value, padded with spaces on the left up to the width.
\<close>

function decimal :: "nat \<Rightarrow> string" where
  "decimal n =
     (if n < 10 then [''0123456789'' ! n]
      else decimal (n div 10) @ [''0123456789'' ! (n mod 10)])"
  by pat_completeness auto
termination
  by (relation "measure (\<lambda>n. n)") auto

definition printf_zu :: "nat \<Rightarrow> size_t \<Rightarrow> string" where
  "printf_zu width v =
     replicate (width - length (decimal (unat v))) CHR '' '' @ decimal (unat v)"

text \<open>\<open>printf("%8zu  %8zu  %8zu\n", this_pos_S + 1, this_pos_Q + 1, this_length)\<close>\<close>

definition match_line :: "size_t \<Rightarrow> size_t \<Rightarrow> size_t \<Rightarrow> string" where
  "match_line this_pos_S this_pos_Q this_length =
     printf_zu 8 (this_pos_S + 1) @ ''  '' @ printf_zu 8 (this_pos_Q + 1) @ ''  ''
       @ printf_zu 8 this_length @ [CHR 0x0A]"

text \<open>\<open>printf("%zu %zu %zu\n", last_pos_S, (size_t)0, query_length)\<close>\<close>

definition identical_line :: "size_t \<Rightarrow> size_t \<Rightarrow> string" where
  "identical_line last_pos_S query_length =
     printf_zu 0 last_pos_S @ '' '' @ printf_zu 0 0 @ '' '' @ printf_zu 0 query_length
       @ [CHR 0x0A]"

subsection \<open>dist_anchor\<close>

text \<open>
  The threshold: \<open>MIN_LENGTH\<close> is an \<open>int\<close> and \<open>threshold\<close> a \<open>size_t\<close>, so the
  assignment sign-extends; \<open>C->len\<close> is converted the same way for \<open>minAnchorLength\<close>,
  which computes with the \<open>double\<close> operations \<open>D\<close>.
\<close>

definition dist_anchor_threshold ::
  "double_ops \<Rightarrow> globals \<Rightarrow> esa_s \<Rightarrow> real \<Rightarrow> size_t option" where
  "dist_anchor_threshold D G C gc =
     (if MIN_LENGTH G \<noteq> 0 then Some (scast (MIN_LENGTH G))
      else map_option of_nat
             (minAnchorLength D (RANDOM_ANCHOR_PROP G) gc (unat (scast (esa_len C) :: size_t))))"

text \<open>\<open>this_length = inter.l <= 0 ? 0 : inter.l\<close>\<close>

definition match_length :: "lcp_inter_t \<Rightarrow> size_t" where
  "match_length intv = (if sint (inter_l intv) \<le> 0 then 0 else scast (inter_l intv))"

text \<open>
  The left extension
  \<open>while (this_pos_Q > 0 && query[this_pos_Q - 1] == C->S[this_pos_S - 1])\<close>.
  The subtraction \<open>this_pos_S - 1\<close> is a \<open>size_t\<close> subtraction and wraps at 0.
\<close>

function left_extend ::
  "esa_s \<Rightarrow> string \<Rightarrow> size_t \<Rightarrow> size_t \<Rightarrow> size_t \<Rightarrow> fault + (size_t \<times> size_t \<times> size_t)" where
  "left_extend C query this_pos_S this_pos_Q this_length =
     (if this_pos_Q > 0
      then (case read_query query (this_pos_Q - 1) of
              Inl e \<Rightarrow> Inl e
            | Inr q \<Rightarrow>
                (case read_S C (this_pos_S - 1) of
                   Inl e \<Rightarrow> Inl e
                 | Inr s \<Rightarrow>
                     if q = s
                     then left_extend C query (this_pos_S - 1) (this_pos_Q - 1) (this_length + 1)
                     else Inr (this_pos_S, this_pos_Q, this_length)))
      else Inr (this_pos_S, this_pos_Q, this_length))"
  by pat_completeness auto
termination
  by (relation "measure (\<lambda>(C, query, this_pos_S, this_pos_Q, this_length). unat this_pos_Q)")
    (auto simp: unat_minus_one word_greater_zero_iff unat_gt_0)

text \<open>
  One iteration of \<open>while (this_pos_Q < query_length)\<close>: the lookup on the rest of
  the query, the left extension, the output (one line or none) and the new cursor.
\<close>

definition anchor_step ::
  "(esa_s \<Rightarrow> string \<Rightarrow> size_t \<Rightarrow> lcp_inter_t) \<Rightarrow> esa_s \<Rightarrow> string \<Rightarrow> size_t \<Rightarrow> size_t \<Rightarrow> size_t
     \<Rightarrow> fault + (string list \<times> size_t)" where
  "anchor_step get_match_cached C query query_length threshold this_pos_Q =
     (let intv = get_match_cached C (drop (unat this_pos_Q) query) (query_length - this_pos_Q)
      in case read_SA C (inter_i intv) of
           Inl e \<Rightarrow> Inl e
         | Inr sa \<Rightarrow>
             (case left_extend C query (scast sa) this_pos_Q (match_length intv) of
                Inl e \<Rightarrow> Inl e
              | Inr (this_pos_S, pos_Q, this_length) \<Rightarrow>
                  Inr (if inter_i intv = inter_j intv \<and> this_length \<ge> threshold
                       then [match_line this_pos_S pos_Q this_length] else [],
                       pos_Q + (this_length + 1))))"

text \<open>
  The main loop, with the lines printed so far. The first argument bounds the number
  of iterations: \<open>None\<close> is a loop that needs more.
\<close>

fun dist_anchor_loop ::
  "nat \<Rightarrow> (esa_s \<Rightarrow> string \<Rightarrow> size_t \<Rightarrow> lcp_inter_t) \<Rightarrow> esa_s \<Rightarrow> string \<Rightarrow> size_t \<Rightarrow> size_t
     \<Rightarrow> size_t \<Rightarrow> string list \<Rightarrow> (fault + string list) option" where
  "dist_anchor_loop 0 get_match_cached C query query_length threshold this_pos_Q out =
     (if this_pos_Q < query_length then None else Some (Inr out))"
| "dist_anchor_loop (Suc fuel) get_match_cached C query query_length threshold this_pos_Q out =
     (if this_pos_Q < query_length
      then (case anchor_step get_match_cached C query query_length threshold this_pos_Q of
              Inl e \<Rightarrow> Some (Inl e)
            | Inr (lines, pos_Q) \<Rightarrow>
                dist_anchor_loop fuel get_match_cached C query query_length threshold pos_Q
                  (out @ lines))
      else Some (Inr out))"

text \<open>
  The branch after the loop, \<open>if (last_length >= query_length)\<close>, with
  \<open>last_pos_S\<close> and \<open>last_length\<close> as initialised at the top of the function.
\<close>

definition identical_branch :: "size_t \<Rightarrow> string list" where
  "identical_branch query_length =
     (let last_pos_S = 0; last_length = 0
      in if last_length \<ge> query_length then [identical_line last_pos_S query_length] else [])"

definition dist_anchor ::
  "double_ops \<Rightarrow> nat \<Rightarrow> globals \<Rightarrow> (esa_s \<Rightarrow> string \<Rightarrow> size_t \<Rightarrow> lcp_inter_t) \<Rightarrow> esa_s \<Rightarrow> string
     \<Rightarrow> size_t \<Rightarrow> real \<Rightarrow> (fault + string list) option" where
  "dist_anchor D fuel G get_match_cached C query query_length gc =
     (case dist_anchor_threshold D G C gc of
        None \<Rightarrow> None
      | Some threshold \<Rightarrow>
          (case dist_anchor_loop fuel get_match_cached C query query_length threshold 0 [] of
             None \<Rightarrow> None
           | Some (Inl e) \<Rightarrow> Some (Inl e)
           | Some (Inr out) \<Rightarrow> Some (Inr (out @ identical_branch query_length))))"

subsection \<open>Worked examples\<close>

text \<open>
  Modelled from the spec: \<open>get_match_cached\<close> and the construction of the suffix
  array are in \<open>esa.c\<close>, which is not among the sources. The subject of a reference
  is the reference, \<open>#\<close>, its reverse and \<open>$\<close> (spec 3); the suffix array lists the
  start positions of the suffixes of the subject in byte order; the lookup returns,
  for the rest of the query, the interval of suffixes that start with its longest
  prefix present in the subject, with the length of that prefix, and the whole array
  with length 0 when not even its first character is present (spec 4.2). An example
  tabulates the lookups that its run makes.
\<close>

definition lookup_table ::
  "(string \<times> lcp_inter_t) list \<Rightarrow> lcp_inter_t \<Rightarrow> esa_s \<Rightarrow> string \<Rightarrow> size_t \<Rightarrow> lcp_inter_t" where
  "lookup_table table whole C query qlen =
     (case map_of table (take (unat qlen) query) of
        Some intv \<Rightarrow> intv
      | None \<Rightarrow> whole)"

text \<open>Reference \<open>ACC\<close>, for the query \<open>CACCA\<close>.\<close>

definition esa_ACC :: esa_s where
  "esa_ACC = \<lparr>esa_S = ''ACC#CCA$'', esa_SA = [3, 7, 6, 0, 2, 5, 1, 4], esa_len = 8\<rparr>"

definition lookup_ACC :: "esa_s \<Rightarrow> string \<Rightarrow> size_t \<Rightarrow> lcp_inter_t" where
  "lookup_ACC =
     lookup_table
       [(''CACCA'', \<lparr>inter_l = 2, inter_i = 5, inter_j = 5\<rparr>),
        (''CA'', \<lparr>inter_l = 2, inter_i = 5, inter_j = 5\<rparr>)]
       \<lparr>inter_l = 0, inter_i = 0, inter_j = 7\<rparr>"

text \<open>Reference \<open>ACGT\<close>, for the query \<open>NACGT\<close>.\<close>

definition esa_ACGT :: esa_s where
  "esa_ACGT =
     \<lparr>esa_S = ''ACGT#TGCA$'', esa_SA = [4, 9, 8, 0, 7, 1, 6, 2, 3, 5], esa_len = 10\<rparr>"

definition lookup_ACGT :: "esa_s \<Rightarrow> string \<Rightarrow> size_t \<Rightarrow> lcp_inter_t" where
  "lookup_ACGT =
     lookup_table
       [(''NACGT'', \<lparr>inter_l = 0, inter_i = 0, inter_j = 9\<rparr>),
        (''ACGT'', \<lparr>inter_l = 4, inter_i = 3, inter_j = 3\<rparr>)]
       \<lparr>inter_l = 0, inter_i = 0, inter_j = 9\<rparr>"

text \<open>
  For the examples of the statistics: the operations of real arithmetic, with \<open>pow\<close>
  at an exponent that is a non-negative integer. A \<open>double\<close> operation returns the
  exact result whenever that is a \<open>double\<close>, so the two agree wherever every exact
  intermediate result is one, as in the examples, whose values are fractions with a
  small power of 2 as denominator.
\<close>

definition exact_double_ops :: double_ops where
  "exact_double_ops =
     \<lparr>d_add = (\<lambda>a b. a + b), d_sub = (\<lambda>a b. a - b), d_mul = (\<lambda>a b. a * b),
      d_div = (\<lambda>a b. a / b), d_pow = (\<lambda>a b. a ^ nat \<lfloor>b\<rfloor>), d_of_size_t = real\<rparr>"

section \<open>Properties of binomial_coefficient\<close>

lemma binomial_step_exact:
  assumes "0 < i"
  shows "((m + i - 1) choose (i - 1)) * (m + i) div i = (m + i) choose i"
proof -
  obtain j where j: "i = Suc j"
    using assms by (cases i) auto
  have "Suc j * (Suc (m + j) choose Suc j) = Suc (m + j) * ((m + j) choose j)"
    by (rule Suc_times_binomial)
  then have "((m + j) choose j) * Suc (m + j) = (Suc (m + j) choose Suc j) * Suc j"
    by (simp only: mult.commute)
  then have "((m + j) choose j) * Suc (m + j) div Suc j
      = (Suc (m + j) choose Suc j) * Suc j div Suc j"
    by (simp only:)
  also have "\<dots> = Suc (m + j) choose Suc j"
    by (rule nonzero_mult_div_cancel_right) simp
  finally show ?thesis
    unfolding j by (simp only: add_Suc_right diff_Suc_1)
qed

lemma binomial_product_small:
  assumes "m + i \<le> 30"
  shows "((m + i - 1) choose (i - 1)) * (m + i) < (2::nat) ^ 64"
proof -
  have "(m + i - 1) choose (i - 1) \<le> 2 ^ (m + i - 1)"
    by (rule binomial_le_pow2)
  also have "\<dots> \<le> (2::nat) ^ 30"
    using assms by (intro power_increasing) auto
  finally have "((m + i - 1) choose (i - 1)) * (m + i) \<le> 2 ^ 30 * 30"
    using assms by (intro mult_mono) auto
  also have "\<dots> < (2::nat) ^ 64"
    by simp
  finally show ?thesis .
qed

lemma binomial_loop_exact:
  assumes "k \<le> n" "n \<le> 30" "0 < i" "i \<le> k + 1"
    and "res = (n - k + i - 1) choose (i - 1)"
  shows "binomial_loop n k i res = n choose k"
  using assms
proof (induction n k i res rule: binomial_loop.induct)
  case (1 n k i res)
  show ?case
  proof (cases "i \<le> k")
    case True
    have small: "res * (n - k + i) < 2 ^ 64"
      using binomial_product_small [of "n - k" i] "1.prems" True by simp
    have step: "res * (n - k + i) div i = (n - k + i) choose i"
      using binomial_step_exact [of i "n - k"] "1.prems" by simp
    have "binomial_loop n k (i + 1) (((res * (n - k + i)) mod 2 ^ 64) div i) = n choose k"
      using "1.prems" True small step by (intro "1.IH") auto
    then show ?thesis
      using True by (subst binomial_loop.simps) simp
  next
    case False
    then have "i = k + 1"
      using "1.prems" by simp
    then show ?thesis
      using "1.prems" by (subst binomial_loop.simps) simp
  qed
qed

lemma binomial_coefficient_zero: "binomial_coefficient 0 k = 0"
  by (simp add: binomial_coefficient_def)

text \<open>
  Claim C5, as the code has it. For \<open>1 \<le> n \<le> 30\<close> and every \<open>k\<close> the function returns the
  exact binomial coefficient (0 for \<open>k > n\<close>). At \<open>n = 0\<close> the guard \<open>n <= 0\<close> is taken
  and the function returns 0 for every \<open>k\<close>, also for \<open>k = 0\<close>.
\<close>

theorem binomial_coefficient_exact:
  "(1 \<le> n \<and> n \<le> 30 \<longrightarrow> binomial_coefficient n k = n choose k)
   \<and> binomial_coefficient 0 k = 0"
proof (intro conjI impI)
  assume n: "1 \<le> n \<and> n \<le> 30"
  show "binomial_coefficient n k = n choose k"
  proof (cases "k > n")
    case True
    then show ?thesis
      by (simp add: binomial_coefficient_def)
  next
    case False
    then have kn: "k \<le> n" by simp
    show ?thesis
    proof (cases "k = 0 \<or> k = n")
      case True
      then show ?thesis
        using n by (auto simp: binomial_coefficient_def)
    next
      case False
      define k' where "k' = (if k > n - k then n - k else k)"
      have k': "k' \<le> n" "n choose k' = n choose k"
        using kn by (auto simp: k'_def binomial_symmetric [symmetric])
      have "binomial_loop n k' 1 1 = n choose k'"
        using n k'(1) by (intro binomial_loop_exact) auto
      then show ?thesis
        using False n kn k'(2) by (simp add: binomial_coefficient_def k'_def)
    qed
  qed
next
  show "binomial_coefficient 0 k = 0"
    by (rule binomial_coefficient_zero)
qed

theorem binomial_coefficient_exact_witness:
  "(1::nat) \<le> 6 \<and> (6::nat) \<le> 30 \<and> binomial_coefficient 6 3 = 20 \<and> binomial_coefficient 0 3 = 0"
proof -
  have c: "(6::nat) choose 3 = 20"
    by (simp add: numeral_eq_Suc)
  have "binomial_coefficient 6 3 = 6 choose 3 \<and> binomial_coefficient 0 3 = 0"
    using binomial_coefficient_exact [of 6 3] by simp
  then show ?thesis
    by (simp only: c) simp
qed

text \<open>
  The claim as written fails at \<open>n = 0\<close>, \<open>k = 0\<close>: the exact value is 1, the guard
  \<open>n <= 0\<close> is reached and the function returns 0.
\<close>

theorem binomial_coefficient_zero_counterexample:
  "binomial_coefficient 0 0 = 0 \<and> (0::nat) choose 0 = 1"
  by (simp add: binomial_coefficient_def)

section \<open>Properties of minAnchorLength\<close>

lemma minAnchorLength_loop_exit:
  "\<not> pr < d_sub D 1 p \<Longrightarrow> minAnchorLength_loop D p g l pr x = Some x"
  by (subst minAnchorLength_loop.simps) simp

lemma minAnchorLength_loop_step:
  "pr < d_sub D 1 p \<Longrightarrow>
     minAnchorLength_loop D p g l pr x
       = minAnchorLength_loop D p g l (shuprop D x (d_div D g 2) l) ((x + 1) mod 2 ^ 64)"
  by (subst minAnchorLength_loop.simps) simp

lemma minAnchorLength_loop_finds:
  assumes "y \<le> x" "x < 2 ^ 64" "pr < d_sub D 1 p"
    and "\<forall>z. y \<le> z \<and> z < x \<longrightarrow> shuprop D z (d_div D g 2) l < d_sub D 1 p"
    and "shuprop D x (d_div D g 2) l \<ge> d_sub D 1 p"
  shows "minAnchorLength_loop D p g l pr y = Some ((x + 1) mod 2 ^ 64)"
  using assms
proof (induction "x - y" arbitrary: y pr)
  case 0
  then have "y = x" by simp
  then show ?case
    using "0.prems" by (simp add: minAnchorLength_loop_step minAnchorLength_loop_exit)
next
  case (Suc d)
  then have lt: "y < x" by simp
  then have next_small: "(y + 1) mod 2 ^ 64 = y + 1"
    using Suc.prems(2) by simp
  have "minAnchorLength_loop D p g l (shuprop D y (d_div D g 2) l) (y + 1)
      = Some ((x + 1) mod 2 ^ 64)"
  proof (rule Suc.hyps(1))
    show "d = x - (y + 1)" using Suc.hyps(2) by simp
    show "y + 1 \<le> x" using lt by simp
    show "x < 2 ^ 64" by (rule Suc.prems(2))
    show "shuprop D y (d_div D g 2) l < d_sub D 1 p" using Suc.prems(4) lt by simp
    show "\<forall>z. y + 1 \<le> z \<and> z < x \<longrightarrow> shuprop D z (d_div D g 2) l < d_sub D 1 p"
      using Suc.prems(4) by simp
    show "d_sub D 1 p \<le> shuprop D x (d_div D g 2) l" by (rule Suc.prems(5))
  qed
  then show ?case
    using Suc.prems(3) next_small by (simp only: minAnchorLength_loop_step)
qed

text \<open>
  Claim C4, as the code has it, in the \<open>double\<close> arithmetic of the code, whatever
  its rounding. When the value of \<open>1 - p\<close> is above \<open>0.0\<close> (so it is for every
  \<open>double\<close> \<open>p < 1\<close>) and \<open>x\<close> is the smallest value from 1 on with
  \<open>shuprop(x, g/2, l) \<ge> 1 - p\<close>, the function returns \<open>x + 1\<close> (in \<open>size_t\<close>
  arithmetic). When the value of \<open>1 - p\<close> is not above \<open>0.0\<close>, as for \<open>p = 1\<close>, the
  loop test fails at once, \<open>shuprop\<close> is never called and the function returns 1.
\<close>

theorem minAnchorLength_smallest:
  "(0 < d_sub D 1 p \<and> 1 \<le> x \<and> x < 2 ^ 64
      \<and> (\<forall>y. 1 \<le> y \<and> y < x \<longrightarrow> shuprop D y (d_div D g 2) l < d_sub D 1 p)
      \<and> shuprop D x (d_div D g 2) l \<ge> d_sub D 1 p
      \<longrightarrow> minAnchorLength D p g l = Some ((x + 1) mod 2 ^ 64))
   \<and> (\<not> 0 < d_sub D 1 p \<longrightarrow> minAnchorLength D p g l = Some 1)"
proof (intro conjI impI)
  assume a: "0 < d_sub D 1 p \<and> 1 \<le> x \<and> x < 2 ^ 64
      \<and> (\<forall>y. 1 \<le> y \<and> y < x \<longrightarrow> shuprop D y (d_div D g 2) l < d_sub D 1 p)
      \<and> shuprop D x (d_div D g 2) l \<ge> d_sub D 1 p"
  then have "minAnchorLength_loop D p g l 0 1 = Some ((x + 1) mod 2 ^ 64)"
    by (intro minAnchorLength_loop_finds) auto
  then show "minAnchorLength D p g l = Some ((x + 1) mod 2 ^ 64)"
    by (simp add: minAnchorLength_def)
next
  assume "\<not> 0 < d_sub D 1 p"
  then show "minAnchorLength D p g l = Some 1"
    by (simp add: minAnchorLength_def minAnchorLength_loop_exit)
qed

lemma exact_double_ops_simps:
  "d_add exact_double_ops a b = a + b"
  "d_sub exact_double_ops a b = a - b"
  "d_mul exact_double_ops a b = a * b"
  "d_div exact_double_ops a b = a / b"
  "d_pow exact_double_ops a b = a ^ nat \<lfloor>b\<rfloor>"
  "d_of_size_t exact_double_ops n = real n"
  by (simp_all add: exact_double_ops_def)

lemma shuprop_1_quarter_1: "shuprop exact_double_ops (Suc 0) (1 / 4) (Suc 0) = 3 / 4"
  by (simp add: shuprop_def binomial_coefficient_def Let_def exact_double_ops_simps)

lemma shuprop_2_quarter_1: "shuprop exact_double_ops 2 (1 / 4) (Suc 0) = 15 / 16"
  by (simp add: shuprop_def binomial_coefficient_def Let_def exact_double_ops_simps
      power2_eq_square)

theorem minAnchorLength_smallest_witness:
  "0 < d_sub exact_double_ops 1 (1 / 8) \<and> (1::nat) \<le> 2 \<and> (2::nat) < 2 ^ 64
   \<and> shuprop exact_double_ops 1 (d_div exact_double_ops (1 / 2) 2) 1
       < d_sub exact_double_ops 1 (1 / 8)
   \<and> shuprop exact_double_ops 2 (d_div exact_double_ops (1 / 2) 2) 1
       \<ge> d_sub exact_double_ops 1 (1 / 8)
   \<and> minAnchorLength exact_double_ops (1 / 8) (1 / 2) 1 = Some 3
   \<and> \<not> 0 < d_sub exact_double_ops 1 1
   \<and> minAnchorLength exact_double_ops 1 (1 / 2) 1 = Some 1"
proof -
  have pos: "0 < d_sub exact_double_ops 1 (1 / 8)"
    by (simp add: exact_double_ops_simps)
  have small: "\<forall>y::nat. 1 \<le> y \<and> y < 2 \<longrightarrow>
      shuprop exact_double_ops y (d_div exact_double_ops (1 / 2) 2) 1
        < d_sub exact_double_ops 1 (1 / 8)"
  proof (intro allI impI)
    fix y :: nat
    assume "1 \<le> y \<and> y < 2"
    then have "y = 1" by simp
    then show "shuprop exact_double_ops y (d_div exact_double_ops (1 / 2) 2) 1
        < d_sub exact_double_ops 1 (1 / 8)"
      by (simp add: shuprop_1_quarter_1 exact_double_ops_simps)
  qed
  have reached: "shuprop exact_double_ops 2 (d_div exact_double_ops (1 / 2) 2) 1
      \<ge> d_sub exact_double_ops 1 (1 / 8)"
    by (simp add: shuprop_2_quarter_1 exact_double_ops_simps)
  have zero: "\<not> 0 < d_sub exact_double_ops 1 1"
    by (simp add: exact_double_ops_simps)
  have "minAnchorLength exact_double_ops (1 / 8) (1 / 2) 1 = Some ((2 + 1) mod 2 ^ 64)"
    using minAnchorLength_smallest [of exact_double_ops "1 / 8" 2 "1 / 2" 1] pos small reached
    by simp
  moreover have "minAnchorLength exact_double_ops 1 (1 / 2) 1 = Some 1"
    using minAnchorLength_smallest [of exact_double_ops 1 2 "1 / 2" 1] zero by blast
  ultimately show ?thesis
    using pos small reached zero by simp
qed

text \<open>
  The claim as written fails at \<open>p = 1\<close>, where \<open>1 - p\<close> is \<open>0.0\<close> without rounding:
  \<open>shuprop(1, g/2, l) \<ge> 0\<close>, so the smallest \<open>x\<close> is 1 and the claim gives 2, while
  the loop is not entered and the function returns 1. For \<open>g = 0.5\<close> and \<open>l = 1\<close> the
  value \<open>shuprop(1, 0.25, 1) = 0.75\<close> is computed without rounding.
\<close>

theorem minAnchorLength_p_one_counterexample:
  "minAnchorLength exact_double_ops 1 (1 / 2) 1 = Some 1
   \<and> shuprop exact_double_ops 1 (d_div exact_double_ops (1 / 2) 2) 1
       \<ge> d_sub exact_double_ops 1 1
   \<and> minAnchorLength exact_double_ops 1 (1 / 2) 1 \<noteq> Some (1 + 1)"
  by (simp add: minAnchorLength_def minAnchorLength_loop_exit shuprop_1_quarter_1
      exact_double_ops_simps)

section \<open>Properties of the option parser\<close>

lemma or_and_flag: "((a::c_int) OR b) AND f = (a AND f) OR (b AND f)"
  by (rule bit.conj_disj_distrib2)

lemma flag_set_after_or: "((a::c_int) OR (f OR r)) AND f \<noteq> 0" if "f \<noteq> 0"
proof -
  have "(a OR (f OR r)) AND f = f"
    by (rule bit_eqI) (auto simp: bit_and_iff bit_or_iff)
  then show ?thesis
    using that by simp
qed

lemma flag_set_after_or2: "((a::c_int) OR (f OR r)) AND r \<noteq> 0" if "r \<noteq> 0"
proof -
  have "(a OR (f OR r)) AND r = r"
    by (rule bit_eqI) (auto simp: bit_and_iff bit_or_iff)
  then show ?thesis
    using that by simp
qed

lemma flag_cleared: "(((a::c_int) AND NOT f) OR r) AND f = 0" if "r AND f = 0"
proof -
  have "((a AND NOT f) OR r) AND f = r AND f"
    by (rule bit_eqI) (auto simp: bit_and_iff bit_or_iff bit_not_iff)
  then show ?thesis
    using that by simp
qed

lemma flag_set_by_r: "(((a::c_int) AND NOT f) OR r) AND r \<noteq> 0" if "r \<noteq> 0"
proof -
  have "((a AND NOT f) OR r) AND r = r"
    by (rule bit_eqI) (auto simp: bit_and_iff bit_or_iff bit_not_iff)
  then show ?thesis
    using that by simp
qed

lemma flag_kept: "((a::c_int) OR b) AND f \<noteq> 0" if "a AND f \<noteq> 0"
  using that by (simp add: or_and_flag or_eq_0_iff)

lemma flag_kept_clear: "((a::c_int) OR b) AND f = 0" if "a AND f = 0" "b AND f = 0"
  using that by (simp add: or_and_flag)

lemma option_b_sets_both:
  assumes "flag_bits_distinct F"
  shows "\<exists>g'. parse_option F Opt_b g = Inr g' \<and> forward_pass F g' \<and> revcomp_pass F g'"
  using assms
  by (simp add: flag_bits_distinct_def forward_pass_def revcomp_pass_def
      flag_set_after_or flag_set_after_or2)

lemma option_r_reverse_only:
  assumes "flag_bits_distinct F"
  shows "\<exists>g'. parse_option F Opt_r g = Inr g' \<and> \<not> forward_pass F g' \<and> revcomp_pass F g'"
  using assms
  by (simp add: flag_bits_distinct_def forward_pass_def revcomp_pass_def
      flag_cleared flag_set_by_r)

lemma revcomp_pass_kept:
  assumes "parse_option F c g = Inr g'" "revcomp_pass F g"
  shows "revcomp_pass F g'"
proof (cases c)
  case Opt_r
  have "((FLAGS g AND NOT (F_FORWARD F)) OR F_REVCOMP F) AND F_REVCOMP F = F_REVCOMP F"
    by (rule bit_eqI) (auto simp: bit_and_iff bit_or_iff bit_not_iff)
  moreover have "F_REVCOMP F \<noteq> 0"
    using assms(2) by (auto simp: revcomp_pass_def)
  ultimately show ?thesis
    using assms Opt_r by (auto simp: revcomp_pass_def)
next
  case (Opt_p x)
  then show ?thesis
    using assms by (cases x) (auto simp: revcomp_pass_def split: if_splits)
next
  case (Opt_l x)
  then show ?thesis
    using assms by (cases x) (auto simp: revcomp_pass_def)
qed (use assms in \<open>auto simp: revcomp_pass_def flag_kept\<close>)

lemma forward_pass_kept:
  assumes "parse_option F c g = Inr g'" "forward_pass F g" "c \<noteq> Opt_r"
  shows "forward_pass F g'"
proof (cases c)
  case (Opt_p x)
  then show ?thesis
    using assms by (cases x) (auto simp: forward_pass_def split: if_splits)
next
  case (Opt_l x)
  then show ?thesis
    using assms by (cases x) (auto simp: forward_pass_def)
qed (use assms in \<open>auto simp: forward_pass_def flag_kept\<close>)

lemma forward_pass_stays_off:
  assumes "flag_bits_distinct F" "parse_option F c g = Inr g'" "\<not> forward_pass F g" "c \<noteq> Opt_b"
  shows "\<not> forward_pass F g'"
proof (cases c)
  case Opt_r
  then show ?thesis
    using assms by (auto simp: forward_pass_def flag_bits_distinct_def flag_cleared)
next
  case (Opt_p x)
  then show ?thesis
    using assms by (cases x) (auto simp: forward_pass_def split: if_splits)
next
  case (Opt_l x)
  then show ?thesis
    using assms by (cases x) (auto simp: forward_pass_def)
qed (use assms in \<open>auto simp: forward_pass_def flag_bits_distinct_def flag_kept_clear\<close>)

lemma parse_arguments_append:
  "parse_arguments F (cs @ ds) g =
     (case parse_arguments F cs g of Inl e \<Rightarrow> Inl e | Inr g' \<Rightarrow> parse_arguments F ds g')"
  by (induction cs arbitrary: g) (auto split: sum.splits)

lemma both_passes_kept:
  assumes "parse_arguments F cs g = Inr g'" "forward_pass F g" "revcomp_pass F g"
    and "Opt_r \<notin> set cs"
  shows "forward_pass F g' \<and> revcomp_pass F g'"
  using assms
proof (induction cs arbitrary: g)
  case Nil
  then show ?case by simp
next
  case (Cons c cs)
  from Cons.prems(1) obtain h where h: "parse_option F c g = Inr h" "parse_arguments F cs h = Inr g'"
    by (auto split: sum.splits)
  have "forward_pass F h" "revcomp_pass F h"
    using h(1) Cons.prems forward_pass_kept revcomp_pass_kept by auto
  then show ?case
    using Cons.IH [OF h(2)] Cons.prems(4) by simp
qed

lemma reverse_only_kept:
  assumes "flag_bits_distinct F" "parse_arguments F cs g = Inr g'"
    and "\<not> forward_pass F g" "revcomp_pass F g" "Opt_b \<notin> set cs"
  shows "\<not> forward_pass F g' \<and> revcomp_pass F g'"
  using assms
proof (induction cs arbitrary: g)
  case Nil
  then show ?case by simp
next
  case (Cons c cs)
  from Cons.prems(2) obtain h where h: "parse_option F c g = Inr h" "parse_arguments F cs h = Inr g'"
    by (auto split: sum.splits)
  have "\<not> forward_pass F h" "revcomp_pass F h"
    using h(1) Cons.prems forward_pass_stays_off revcomp_pass_kept by auto
  then show ?case
    using Cons.IH [OF Cons.prems(1) h(2)] Cons.prems(5) by simp
qed

lemma parse_arguments_returns:
  assumes "Opt_h \<notin> set cs" "Opt_unknown \<notin> set cs"
  shows "\<exists>g'. parse_arguments F cs g = Inr g'"
  using assms
proof (induction cs arbitrary: g)
  case Nil
  then show ?case by simp
next
  case (Cons c cs)
  have "\<exists>h. parse_option F c g = Inr h"
    using Cons.prems by (cases "(F, c, g)" rule: parse_option.cases) auto
  then show ?case
    using Cons by auto
qed

text \<open>
  Claim C8. Every \<open>-b\<close> leaves both pass flags set and every \<open>-r\<close> leaves the forward
  flag clear and the reverse-complement flag set, whatever the flags were before. The
  last of the two on the command line decides: the options after it do not change the
  two flags, so \<open>-r\<close> alone or last leaves only the reverse pass and \<open>-b\<close> last leaves
  both. Parsing runs to its end unless \<open>-h\<close> or an unknown option exits.
\<close>

theorem flags_b_r_last_wins:
  assumes "flag_bits_distinct F"
  shows "(\<exists>g'. parse_option F Opt_b g = Inr g' \<and> forward_pass F g' \<and> revcomp_pass F g')
    \<and> (\<exists>g'. parse_option F Opt_r g = Inr g' \<and> \<not> forward_pass F g' \<and> revcomp_pass F g')
    \<and> (Opt_h \<notin> set cs \<and> Opt_unknown \<notin> set cs \<longrightarrow> (\<exists>g'. parse_arguments F cs g = Inr g'))
    \<and> (parse_arguments F (pre @ Opt_b # post) g = Inr g' \<and> Opt_r \<notin> set post
          \<longrightarrow> forward_pass F g' \<and> revcomp_pass F g')
    \<and> (parse_arguments F (pre @ Opt_r # post) g = Inr g' \<and> Opt_b \<notin> set post
          \<longrightarrow> \<not> forward_pass F g' \<and> revcomp_pass F g')"
proof (intro conjI impI)
  show "\<exists>g'. parse_option F Opt_b g = Inr g' \<and> forward_pass F g' \<and> revcomp_pass F g'"
    using assms by (rule option_b_sets_both)
  show "\<exists>g'. parse_option F Opt_r g = Inr g' \<and> \<not> forward_pass F g' \<and> revcomp_pass F g'"
    using assms by (rule option_r_reverse_only)
next
  assume "Opt_h \<notin> set cs \<and> Opt_unknown \<notin> set cs"
  then show "\<exists>g'. parse_arguments F cs g = Inr g'"
    using parse_arguments_returns by blast
next
  assume a: "parse_arguments F (pre @ Opt_b # post) g = Inr g' \<and> Opt_r \<notin> set post"
  then obtain h where h: "parse_arguments F pre g = Inr h"
      "parse_arguments F (Opt_b # post) h = Inr g'"
    by (auto simp: parse_arguments_append split: sum.splits)
  obtain k where k: "parse_option F Opt_b h = Inr k" "forward_pass F k" "revcomp_pass F k"
    using option_b_sets_both [OF assms] by blast
  have "parse_arguments F post k = Inr g'"
    using h(2) k(1) by simp
  then have both: "forward_pass F g' \<and> revcomp_pass F g'"
    using k a by (intro both_passes_kept [of F post k]) auto
  from both show "forward_pass F g'" ..
  from both show "revcomp_pass F g'" ..
next
  assume a: "parse_arguments F (pre @ Opt_r # post) g = Inr g' \<and> Opt_b \<notin> set post"
  then obtain h where h: "parse_arguments F pre g = Inr h"
      "parse_arguments F (Opt_r # post) h = Inr g'"
    by (auto simp: parse_arguments_append split: sum.splits)
  obtain k where k: "parse_option F Opt_r h = Inr k" "\<not> forward_pass F k" "revcomp_pass F k"
    using option_r_reverse_only [OF assms] by blast
  have "parse_arguments F post k = Inr g'"
    using h(2) k(1) by simp
  then have only: "\<not> forward_pass F g' \<and> revcomp_pass F g'"
    using k a assms by (intro reverse_only_kept [of F post k]) auto
  from only show "\<not> forward_pass F g'" ..
  from only show "revcomp_pass F g'" ..
qed

theorem flags_b_r_last_wins_witness:
  "flag_bits_distinct
     \<lparr>F_FORWARD = 16, F_REVCOMP = 32, F_JOIN = 4, F_VERBOSE = 1, F_EXTRA_VERBOSE = 2\<rparr>
   \<and> parse_arguments
         \<lparr>F_FORWARD = 16, F_REVCOMP = 32, F_JOIN = 4, F_VERBOSE = 1, F_EXTRA_VERBOSE = 2\<rparr>
         ([Opt_r, Opt_j] @ Opt_b # [Opt_v])
         \<lparr>FLAGS = 16, RANDOM_ANCHOR_PROP = 5 / 100, MIN_LENGTH = 0, version_flag = False\<rparr>
       = Inr \<lparr>FLAGS = 53, RANDOM_ANCHOR_PROP = 5 / 100, MIN_LENGTH = 0, version_flag = False\<rparr>
   \<and> forward_pass
         \<lparr>F_FORWARD = 16, F_REVCOMP = 32, F_JOIN = 4, F_VERBOSE = 1, F_EXTRA_VERBOSE = 2\<rparr>
         \<lparr>FLAGS = 53, RANDOM_ANCHOR_PROP = 5 / 100, MIN_LENGTH = 0, version_flag = False\<rparr>
   \<and> parse_arguments
         \<lparr>F_FORWARD = 16, F_REVCOMP = 32, F_JOIN = 4, F_VERBOSE = 1, F_EXTRA_VERBOSE = 2\<rparr>
         ([Opt_b] @ Opt_r # [Opt_j])
         \<lparr>FLAGS = 16, RANDOM_ANCHOR_PROP = 5 / 100, MIN_LENGTH = 0, version_flag = False\<rparr>
       = Inr \<lparr>FLAGS = 36, RANDOM_ANCHOR_PROP = 5 / 100, MIN_LENGTH = 0, version_flag = False\<rparr>
   \<and> \<not> forward_pass
         \<lparr>F_FORWARD = 16, F_REVCOMP = 32, F_JOIN = 4, F_VERBOSE = 1, F_EXTRA_VERBOSE = 2\<rparr>
         \<lparr>FLAGS = 36, RANDOM_ANCHOR_PROP = 5 / 100, MIN_LENGTH = 0, version_flag = False\<rparr>
   \<and> revcomp_pass
         \<lparr>F_FORWARD = 16, F_REVCOMP = 32, F_JOIN = 4, F_VERBOSE = 1, F_EXTRA_VERBOSE = 2\<rparr>
         \<lparr>FLAGS = 36, RANDOM_ANCHOR_PROP = 5 / 100, MIN_LENGTH = 0, version_flag = False\<rparr>"
proof -
  let ?F = "\<lparr>F_FORWARD = 16, F_REVCOMP = 32, F_JOIN = 4, F_VERBOSE = 1, F_EXTRA_VERBOSE = 2\<rparr>"
  let ?g = "\<lparr>FLAGS = 16, RANDOM_ANCHOR_PROP = 5 / 100, MIN_LENGTH = 0, version_flag = False\<rparr>"
  let ?gb = "\<lparr>FLAGS = 53, RANDOM_ANCHOR_PROP = 5 / 100, MIN_LENGTH = 0, version_flag = False\<rparr>"
  let ?gr = "\<lparr>FLAGS = 36, RANDOM_ANCHOR_PROP = 5 / 100, MIN_LENGTH = 0, version_flag = False\<rparr>"
  have d: "flag_bits_distinct ?F"
    by (simp add: flag_bits_distinct_def)
  have b: "parse_arguments ?F ([Opt_r, Opt_j] @ Opt_b # [Opt_v]) ?g = Inr ?gb"
    by simp
  have r: "parse_arguments ?F ([Opt_b] @ Opt_r # [Opt_j]) ?g = Inr ?gr"
    by simp
  have "forward_pass ?F ?gb \<and> revcomp_pass ?F ?gb"
    using flags_b_r_last_wins [OF d, of ?g "[]" "[Opt_r, Opt_j]" "[Opt_v]" ?gb] b
    by simp
  moreover have "\<not> forward_pass ?F ?gr \<and> revcomp_pass ?F ?gr"
    using flags_b_r_last_wins [OF d, of ?g "[]" "[Opt_b]" "[Opt_j]" ?gr] r
    by simp
  ultimately show ?thesis
    using d b r by simp
qed

section \<open>Properties of the input stage\<close>

lemma strrchr_None: "strrchr s c = None \<longleftrightarrow> c \<notin> set s"
  by (induction s) (auto split: option.splits)

lemma strrchr_Some:
  "strrchr s c = Some p \<Longrightarrow> \<exists>pre rest. s = pre @ c # rest \<and> p = c # rest \<and> c \<notin> set rest"
proof (induction s arbitrary: p)
  case Nil
  then show ?case by simp
next
  case (Cons x xs)
  show ?case
  proof (cases "strrchr xs c")
    case None
    with Cons.prems have "x = c" "p = x # xs"
      by (auto split: if_splits)
    moreover have "c \<notin> set xs"
      using None by (simp add: strrchr_None)
    ultimately show ?thesis
      by (intro exI [of _ "[]"] exI [of _ xs]) simp
  next
    case (Some q)
    with Cons.prems have "q = p" by simp
    with Some Cons.IH obtain pre rest where "xs = pre @ c # rest" "p = c # rest" "c \<notin> set rest"
      by blast
    then show ?thesis
      by (intro exI [of _ "x # pre"] exI [of _ rest]) simp
  qed
qed

lemma strchrnul_dropWhile: "strchrnul s c = dropWhile (\<lambda>x. x \<noteq> c) s"
  by (induction s) auto

lemma take_upto_dropWhile:
  "take (length s - length (dropWhile P s)) s = takeWhile P s"
proof -
  have "length s = length (takeWhile P s) + length (dropWhile P s)"
    by (metis length_append takeWhile_dropWhile_id)
  then have "length s - length (dropWhile P s) = length (takeWhile P s)"
    by simp
  then show ?thesis
    by (metis append_eq_conv_conj takeWhile_dropWhile_id)
qed

lemma after_last_separator:
  "(case strrchr s c of None \<Rightarrow> s | Some p \<Rightarrow> tl p) = rev (takeWhile (\<lambda>x. x \<noteq> c) (rev s))"
proof (cases "strrchr s c")
  case None
  then have "c \<notin> set s"
    by (simp add: strrchr_None)
  then have all: "takeWhile (\<lambda>x. x \<noteq> c) (rev s) = rev s"
    by (intro takeWhile_eq_all_conv [THEN iffD2]) auto
  show ?thesis
    by (simp only: None all option.case rev_rev_ident)
next
  case (Some p)
  then obtain pre rest where s: "s = pre @ c # rest" "p = c # rest" "c \<notin> set rest"
    using strrchr_Some by blast
  have cut: "takeWhile (\<lambda>x. x \<noteq> c) (rev rest @ c # rev pre) = rev rest"
    using s(3) by (auto simp: takeWhile_tail)
  have "rev s = rev rest @ c # rev pre"
    by (simp add: s(1))
  then show ?thesis
    by (simp only: Some s(2) cut option.case list.sel rev_rev_ident)
qed

lemma strip_extension_single_dot:
  assumes "length (filter (\<lambda>x. x = CHR ''.'') fname) \<le> 1"
  shows "strip_extension_spec fname = takeWhile (\<lambda>x. x \<noteq> CHR ''.'') fname"
proof (cases "CHR ''.'' \<in> set fname")
  case False
  then have whole: "takeWhile (\<lambda>x. x \<noteq> CHR ''.'') fname = fname"
    by (intro takeWhile_eq_all_conv [THEN iffD2]) auto
  have "strip_extension_spec fname = fname"
    using False by (simp add: strip_extension_spec_def)
  then show ?thesis
    by (simp only: whole)
next
  case True
  define pre where "pre = takeWhile (\<lambda>x. x \<noteq> CHR ''.'') fname"
  define suf where "suf = dropWhile (\<lambda>x. x \<noteq> CHR ''.'') fname"
  have split: "fname = pre @ suf"
    by (simp add: pre_def suf_def)
  have "suf \<noteq> []"
    using True by (auto simp: suf_def dropWhile_eq_Nil_conv)
  moreover have "hd suf = CHR ''.''"
    using \<open>suf \<noteq> []\<close> hd_dropWhile [of "\<lambda>x. x \<noteq> CHR ''.''" fname] by (simp add: suf_def)
  ultimately obtain post where suf: "suf = CHR ''.'' # post"
    by (cases suf) auto
  have "length (filter (\<lambda>x. x = CHR ''.'') fname)
      = length (filter (\<lambda>x. x = CHR ''.'') pre) + 1 + length (filter (\<lambda>x. x = CHR ''.'') post)"
    by (simp add: split suf)
  then have "filter (\<lambda>x. x = CHR ''.'') post = []"
    using assms by simp
  then have post: "\<forall>x \<in> set post. x \<noteq> CHR ''.''"
    by (simp add: filter_empty_conv)
  have "rev fname = rev post @ CHR ''.'' # rev pre"
    by (simp add: split suf)
  moreover have "dropWhile (\<lambda>x. x \<noteq> CHR ''.'') (rev post @ CHR ''.'' # rev pre)
      = CHR ''.'' # rev pre"
  proof -
    have "dropWhile (\<lambda>x. x \<noteq> CHR ''.'') (rev post @ CHR ''.'' # rev pre)
        = dropWhile (\<lambda>x. x \<noteq> CHR ''.'') (CHR ''.'' # rev pre)"
      using post by (intro dropWhile_append2) auto
    then show ?thesis
      by simp
  qed
  ultimately have "rev (tl (dropWhile (\<lambda>x. x \<noteq> CHR ''.'') (rev fname))) = pre"
    by simp
  then show ?thesis
    using True by (simp add: strip_extension_spec_def pre_def)
qed

text \<open>
  Claim C7, as the code has it. The name given to the joined sequence is the part of
  the path after its last \<open>/\<close> (the whole path when it has none), cut at its first
  \<open>.\<close>; the joined sequence is pushed under that name whenever the file holds a
  sequence. When that part of the path holds at most one \<open>.\<close>, this is the basename
  stripped of its extension.
\<close>

theorem read_fasta_join_name:
  "join_name file_name = takeWhile (\<lambda>x. x \<noteq> CHR ''.'') (basename_spec file_name)
   \<and> (length (filter (\<lambda>x. x = CHR ''.'') (basename_spec file_name)) \<le> 1 \<longrightarrow>
        join_name file_name = strip_extension_spec (basename_spec file_name))
   \<and> read_fasta_join read_fasta dsa_join file_name dsa
     = (if read_fasta file_name = [] then dsa
        else dsa @ [(dsa_join (read_fasta file_name))
               \<lparr>seq_name := takeWhile (\<lambda>x. x \<noteq> CHR ''.'') (basename_spec file_name)\<rparr>])"
proof -
  have name: "join_name file_name
      = takeWhile (\<lambda>x. x \<noteq> CHR ''.'') (basename_spec file_name)"
    unfolding join_name_def Let_def strndup_def strchrnul_dropWhile basename_spec_def
    by (simp only: after_last_separator take_upto_dropWhile)
  moreover have "join_name file_name = strip_extension_spec (basename_spec file_name)"
    if "length (filter (\<lambda>x. x = CHR ''.'') (basename_spec file_name)) \<le> 1"
    using that name by (simp add: strip_extension_single_dot)
  ultimately show ?thesis
    by (simp add: read_fasta_join_def Let_def)
qed

theorem read_fasta_join_name_witness:
  "length (filter (\<lambda>x. x = CHR ''.'') (basename_spec ''data/genomes/ecoli.fasta'')) \<le> 1
   \<and> join_name ''data/genomes/ecoli.fasta'' = ''ecoli''
   \<and> strip_extension_spec (basename_spec ''data/genomes/ecoli.fasta'') = ''ecoli''
   \<and> read_fasta_join
        (\<lambda>f. [\<lparr>seq_S = ''ACGT'', seq_name = ''s1''\<rparr>, \<lparr>seq_S = ''TT'', seq_name = ''s2''\<rparr>])
        (\<lambda>ss. \<lparr>seq_S = concat (map seq_S ss), seq_name = []\<rparr>) ''data/genomes/ecoli.fasta'' []
     = [\<lparr>seq_S = ''ACGTTT'', seq_name = ''ecoli''\<rparr>]"
proof -
  have one: "length (filter (\<lambda>x. x = CHR ''.'') (basename_spec ''data/genomes/ecoli.fasta'')) \<le> 1"
    by (simp add: basename_spec_def)
  have strip: "strip_extension_spec (basename_spec ''data/genomes/ecoli.fasta'') = ''ecoli''"
    by (simp add: basename_spec_def strip_extension_spec_def)
  note inst = read_fasta_join_name [of "''data/genomes/ecoli.fasta''"
      "\<lambda>f. [\<lparr>seq_S = ''ACGT'', seq_name = ''s1''\<rparr>, \<lparr>seq_S = ''TT'', seq_name = ''s2''\<rparr>]"
      "\<lambda>ss. \<lparr>seq_S = concat (map seq_S ss), seq_name = []\<rparr>" "[]"]
  from inst one have "join_name ''data/genomes/ecoli.fasta''
      = strip_extension_spec (basename_spec ''data/genomes/ecoli.fasta'')"
    by blast
  then have "join_name ''data/genomes/ecoli.fasta'' = ''ecoli''"
    by (simp only: strip)
  moreover from inst have "read_fasta_join
        (\<lambda>f. [\<lparr>seq_S = ''ACGT'', seq_name = ''s1''\<rparr>, \<lparr>seq_S = ''TT'', seq_name = ''s2''\<rparr>])
        (\<lambda>ss. \<lparr>seq_S = concat (map seq_S ss), seq_name = []\<rparr>) ''data/genomes/ecoli.fasta'' []
     = [\<lparr>seq_S = ''ACGTTT'', seq_name = ''ecoli''\<rparr>]"
    by (simp add: basename_spec_def)
  ultimately show ?thesis
    using one strip by blast
qed

text \<open>
  The claim as written fails for a name with several dots, such as the versioned
  names of sequence archives: the extension of \<open>genome.v2.fasta\<close> is \<open>.fasta\<close>, and
  the code cuts the name at the first \<open>.\<close>.
\<close>

theorem join_name_two_dots_counterexample:
  "join_name ''reads/genome.v2.fasta'' = ''genome''
   \<and> strip_extension_spec (basename_spec ''reads/genome.v2.fasta'') = ''genome.v2''"
  by (simp add: join_name_def strndup_def basename_spec_def strip_extension_spec_def)

text \<open>
  Claim C10. In join mode with exactly one path, the loop calls the joining reader on
  the path and then once more on \<open>-\<close>, which \<open>read_fasta\<close> takes from standard input;
  after that it stops.
\<close>

theorem join_single_path_reads_stdin:
  "main_files True [file_name] = Inr [Read_fasta_join file_name, Read_fasta_join ''-'']
   \<and> read_source ''-'' = STDIN_FILENO"
  by (simp add: main_files_def read_source_def)

section \<open>Properties of the anchor finder\<close>

subsection \<open>Conversions from int to size_t\<close>

lemma unat_scast_nonneg:
  fixes w :: "32 word"
  assumes "0 \<le> sint w"
  shows "unat (scast w :: 64 word) = nat (sint w)"
proof -
  have "sint w < 2 ^ 31"
    using sint_lt [of w] by simp
  then have "sint w mod 2 ^ 64 = sint w"
    using assms by (intro mod_pos_pos_trivial) auto
  moreover have "uint (scast w :: 64 word) = sint w mod 2 ^ LENGTH(64)"
    unfolding scast_eq by (rule uint_word_of_int)
  ultimately have "uint (scast w :: 64 word) = sint w"
    by simp
  then show ?thesis
    by (simp add: unat_eq_nat_uint)
qed

lemma uint_scast_neg:
  fixes w :: "32 word"
  assumes "sint w < 0"
  shows "uint (scast w :: 64 word) = 2 ^ 64 + sint w"
proof -
  have low: "- (2 ^ 31) \<le> sint w"
    using sint_ge [of w] by simp
  have "sint w mod 2 ^ 64 = (sint w + 2 ^ 64) mod 2 ^ 64"
    by simp
  also have "\<dots> = sint w + 2 ^ 64"
    using low assms by (intro mod_pos_pos_trivial) auto
  finally have "sint w mod 2 ^ 64 = sint w + 2 ^ 64" .
  moreover have "uint (scast w :: 64 word) = sint w mod 2 ^ LENGTH(64)"
    unfolding scast_eq by (rule uint_word_of_int)
  ultimately show ?thesis
    by simp
qed

lemma match_length_small: "unat (match_length intv) < 2 ^ 31"
proof (cases "sint (inter_l intv) \<le> 0")
  case True
  then show ?thesis
    by (simp add: match_length_def)
next
  case False
  then have "unat (scast (inter_l intv) :: 64 word) = nat (sint (inter_l intv))"
    by (intro unat_scast_nonneg) simp
  moreover have "sint (inter_l intv) < 2 ^ 31"
    using sint_lt [of "inter_l intv"] by simp
  ultimately show ?thesis
    using False by (simp add: match_length_def)
qed

subsection \<open>The left extension\<close>

declare left_extend.simps [simp del]

lemma left_extend_balance:
  assumes "left_extend C query s q n = Inr (s', q', n')"
  shows "q' + n' = q + n \<and> s' + n' = s + n \<and> unat q' \<le> unat q"
  using assms
proof (induction C query s q n rule: left_extend.induct)
  case (1 C query s q n)
  show ?case
  proof (cases "q > 0")
    case False
    then show ?thesis
      using "1.prems" by (subst (asm) left_extend.simps) simp
  next
    case True
    then have pred: "unat (q - 1) < unat q"
      by (simp add: unat_minus_one word_greater_zero_iff unat_gt_0)
    from "1.prems" True obtain a b where reads:
      "read_query query (q - 1) = Inr a" "read_S C (s - 1) = Inr b"
      by (subst (asm) left_extend.simps) (auto split: sum.splits)
    show ?thesis
    proof (cases "a = b")
      case False
      then show ?thesis
        using "1.prems" True reads by (subst (asm) left_extend.simps) simp
    next
      case eq: True
      then have "left_extend C query (s - 1) (q - 1) (n + 1) = Inr (s', q', n')"
        using "1.prems" True reads by (subst (asm) left_extend.simps) simp
      then have "q' + n' = (q - 1) + (n + 1) \<and> s' + n' = (s - 1) + (n + 1)
          \<and> unat q' \<le> unat (q - 1)"
        using "1.IH" True reads eq by blast
      then show ?thesis
        using pred by simp
    qed
  qed
qed

text \<open>
  The sibling guard is missing: with the cursor of the subject at 0 and the cursor of
  the query above 0, the test reads \<open>C->S\<close> at index \<open>2 ^ 64 - 1\<close>.
\<close>

lemma left_extend_at_subject_start:
  assumes "0 < q" "unat (q - 1) < length query" "length (esa_S C) < 2 ^ 64"
  shows "left_extend C query 0 q n = Inl (Read_outside_S (0 - 1))"
proof -
  have "unat (0 - 1 :: 64 word) = 2 ^ 64 - 1"
    by (simp add: unsigned_minus_1_eq_mask mask_eq_exp_minus_1)
  then have "read_S C (0 - 1) = Inl (Read_outside_S (0 - 1))"
    using assms(3) by (simp add: read_S_def)
  moreover have "\<exists>a. read_query query (q - 1) = Inr a"
    using assms(2) by (simp add: read_query_def)
  ultimately show ?thesis
    using assms(1) by (subst left_extend.simps) auto
qed

subsection \<open>Progress of the main loop\<close>

lemma anchor_step_advance:
  assumes "anchor_step gm C query qlen thr pos = Inr (lines, pos')"
  shows "pos' = pos + match_length (gm C (drop (unat pos) query) (qlen - pos)) + 1"
proof -
  let ?intv = "gm C (drop (unat pos) query) (qlen - pos)"
  from assms obtain sa where sa: "read_SA C (inter_i ?intv) = Inr sa"
    by (auto simp: anchor_step_def Let_def split: sum.splits)
  from assms sa obtain s q n where
    ext: "left_extend C query (scast sa) pos (match_length ?intv) = Inr (s, q, n)"
    by (auto simp: anchor_step_def Let_def split: sum.splits)
  from assms sa ext have "pos' = q + (n + 1)"
    by (simp add: anchor_step_def Let_def)
  moreover have "q + n = pos + match_length ?intv"
    using left_extend_balance [OF ext] by simp
  ultimately show ?thesis
    by (simp add: add.assoc [symmetric])
qed

lemma anchor_step_progress:
  assumes "anchor_step gm C query qlen thr pos = Inr (lines, pos')"
    and "pos < qlen" "unat qlen < 2 ^ 63"
  shows "unat pos' = unat pos + unat (match_length (gm C (drop (unat pos) query) (qlen - pos))) + 1"
proof -
  let ?n = "match_length (gm C (drop (unat pos) query) (qlen - pos))"
  have p: "unat pos < 2 ^ 63"
    using assms(2,3) by (simp add: word_less_nat_alt)
  have n: "unat ?n < 2 ^ 31"
    by (rule match_length_small)
  have "unat (pos + ?n) = unat pos + unat ?n"
    using p n by (simp add: unat_word_ariths)
  moreover have "unat (pos + ?n + 1) = (unat (pos + ?n) + 1) mod 2 ^ 64"
    by (simp add: unat_word_ariths)
  ultimately have "unat (pos + ?n + 1) = unat pos + unat ?n + 1"
    using p n by simp
  then show ?thesis
    using anchor_step_advance [OF assms(1)] by simp
qed

lemma dist_anchor_loop_returns:
  assumes "unat qlen < 2 ^ 63" "unat qlen \<le> fuel + unat pos"
  shows "\<exists>r. dist_anchor_loop fuel gm C query qlen thr pos out = Some r"
  using assms
proof (induction fuel arbitrary: pos out)
  case 0
  then have "\<not> pos < qlen"
    by (simp add: word_less_nat_alt)
  then show ?case
    by simp
next
  case (Suc fuel)
  show ?case
  proof (cases "pos < qlen")
    case False
    then show ?thesis
      by simp
  next
    case True
    show ?thesis
    proof (cases "anchor_step gm C query qlen thr pos")
      case (Inl e)
      then show ?thesis
        using True by simp
    next
      case (Inr res)
      obtain lines pos' where res: "res = (lines, pos')"
        by (cases res)
      have "unat pos < unat pos'"
        using anchor_step_progress [OF Inr [unfolded res] True Suc.prems(1)] by simp
      then have "unat qlen \<le> fuel + unat pos'"
        using Suc.prems(2) by simp
      then have "\<exists>r. dist_anchor_loop fuel gm C query qlen thr pos' (out @ lines) = Some r"
        using Suc.prems(1) by (intro Suc.IH)
      then show ?thesis
        using True Inr res by simp
    qed
  qed
qed

text \<open>
  Claim C3. For a query of length \<open>m\<close> below \<open>2 ^ 63\<close> (\<open>main\<close> rejects every sequence
  longer than \<open>(INT_MAX - 1) / 2\<close>): an iteration that completes leaves the cursor at
  its value at the start of the iteration plus the length found by the lookup plus one,
  the steps of the left extension cancelling out, so the cursor grows by at least 1;
  and \<open>m\<close> iterations are enough for the loop to end, with the output or with the
  fault of a read outside the subject.
\<close>

theorem dist_anchor_loop_terminates:
  assumes "unat query_length < 2 ^ 63"
  shows "(this_pos_Q < query_length
          \<and> anchor_step gm C query query_length threshold this_pos_Q = Inr (lines, pos_Q)
          \<longrightarrow> pos_Q = this_pos_Q
                  + match_length (gm C (drop (unat this_pos_Q) query) (query_length - this_pos_Q))
                  + 1
              \<and> unat pos_Q = unat this_pos_Q
                  + unat (match_length
                       (gm C (drop (unat this_pos_Q) query) (query_length - this_pos_Q)))
                  + 1
              \<and> unat this_pos_Q < unat pos_Q)
     \<and> (\<exists>r. dist_anchor_loop (unat query_length) gm C query query_length threshold 0 []
              = Some r)"
proof (intro conjI impI)
  assume a: "this_pos_Q < query_length
    \<and> anchor_step gm C query query_length threshold this_pos_Q = Inr (lines, pos_Q)"
  then show "pos_Q = this_pos_Q
      + match_length (gm C (drop (unat this_pos_Q) query) (query_length - this_pos_Q)) + 1"
    using anchor_step_advance by blast
  from a assms show progress: "unat pos_Q = unat this_pos_Q
      + unat (match_length (gm C (drop (unat this_pos_Q) query) (query_length - this_pos_Q)))
      + 1"
    using anchor_step_progress by blast
  then show "unat this_pos_Q < unat pos_Q"
    by simp
next
  show "\<exists>r. dist_anchor_loop (unat query_length) gm C query query_length threshold 0 []
      = Some r"
    using assms by (intro dist_anchor_loop_returns) auto
qed

subsection \<open>The printed fields\<close>

declare decimal.simps [simp del]

lemma decimal_digit:
  assumes "d < 10"
  shows "(of_char (''0123456789'' ! d) :: nat) = 48 + d"
proof -
  from assms have "d \<in> {0, 1, 2, 3, 4, 5, 6, 7, 8, 9}"
    by auto
  then show ?thesis
    by auto
qed

lemma decimal_value: "foldl (\<lambda>a c. 10 * a + (of_char c - 48)) 0 (decimal n) = n"
proof (induction n rule: decimal.induct)
  case (1 n)
  show ?case
  proof (cases "n < 10")
    case True
    then show ?thesis
      by (subst decimal.simps) (simp add: decimal_digit)
  next
    case False
    then have "foldl (\<lambda>a c. 10 * a + (of_char c - 48)) 0 (decimal (n div 10)) = n div 10"
      by (rule "1.IH")
    then show ?thesis
      using False by (subst decimal.simps) (simp add: decimal_digit)
  qed
qed

lemma decimal_nonempty: "0 < length (decimal n)"
  by (subst decimal.simps) simp

lemma decimal_length:
  assumes "0 < k"
  shows "length (decimal n) \<le> k \<longleftrightarrow> n < 10 ^ k"
  using assms
proof (induction n arbitrary: k rule: decimal.induct)
  case (1 n)
  obtain k' where k: "k = Suc k'"
    using "1.prems" by (cases k) auto
  show ?case
  proof (cases "n < 10")
    case True
    have "(10::nat) ^ 1 \<le> 10 ^ k"
      using "1.prems" by (intro power_increasing) auto
    then have "n < 10 ^ k"
      using True by simp
    moreover have "length (decimal n) = 1"
      using True by (subst decimal.simps) simp
    ultimately show ?thesis
      using "1.prems" by simp
  next
    case False
    have len: "length (decimal n) = Suc (length (decimal (n div 10)))"
      using False by (subst decimal.simps) simp
    show ?thesis
    proof (cases "k' = 0")
      case True
      then show ?thesis
        using False len k decimal_nonempty [of "n div 10"] by simp
    next
      case pos: False
      then have "length (decimal (n div 10)) \<le> k' \<longleftrightarrow> n div 10 < 10 ^ k'"
        using False by (intro "1.IH") auto
      moreover have "n div 10 < 10 ^ k' \<longleftrightarrow> n < 10 ^ k' * 10"
        by (rule div_less_iff_less_mult) simp
      ultimately show ?thesis
        using len k by (simp add: mult.commute)
    qed
  qed
qed

lemma printf_zu_length: "length (printf_zu w v) = max w (length (decimal (unat v)))"
  by (simp add: printf_zu_def)

lemma printf_zu_8_exact: "length (printf_zu 8 v) = 8 \<longleftrightarrow> unat v < 10 ^ 8"
proof -
  have "length (printf_zu 8 v) = 8 \<longleftrightarrow> length (decimal (unat v)) \<le> 8"
    by (auto simp: printf_zu_length)
  then show ?thesis
    using decimal_length [of 8 "unat v"] by simp
qed

subsection \<open>What an iteration prints\<close>

lemma anchor_step_lines:
  assumes "anchor_step gm C query qlen thr pos = Inr (lines, pos')"
  shows "\<exists>sa s q n.
      read_SA C (inter_i (gm C (drop (unat pos) query) (qlen - pos))) = Inr sa
      \<and> left_extend C query (scast sa) pos
            (match_length (gm C (drop (unat pos) query) (qlen - pos))) = Inr (s, q, n)
      \<and> lines = (if inter_i (gm C (drop (unat pos) query) (qlen - pos))
                      = inter_j (gm C (drop (unat pos) query) (qlen - pos))
                    \<and> thr \<le> n
                  then [match_line s q n] else [])"
proof -
  let ?intv = "gm C (drop (unat pos) query) (qlen - pos)"
  from assms obtain sa where sa: "read_SA C (inter_i ?intv) = Inr sa"
    by (auto simp: anchor_step_def Let_def split: sum.splits)
  from assms sa obtain s q n where
    ext: "left_extend C query (scast sa) pos (match_length ?intv) = Inr (s, q, n)"
    by (auto simp: anchor_step_def Let_def split: sum.splits)
  from assms sa ext have
    "lines = (if inter_i ?intv = inter_j ?intv \<and> thr \<le> n then [match_line s q n] else [])"
    by (simp add: anchor_step_def Let_def)
  with sa ext show ?thesis
    by blast
qed

text \<open>
  Claim C1, as the code has it. In an iteration that completes, a line is printed if
  and only if the interval of the lookup is a singleton and the left-extended length
  is at least the threshold; nothing is printed for \<open>i \<noteq> j\<close>, whatever the length.
  The line holds \<open>pos_S + 1\<close>, \<open>pos_Q + 1\<close> and the length, in decimal, each padded with
  spaces on the left to a width of at least 8, with two spaces between the fields and
  a newline at the end. A field is exactly 8 characters wide when its value is below
  \<open>10 ^ 8\<close>; a larger value is printed in full and the field is wider.
\<close>

theorem anchor_step_emits:
  "(anchor_step gm C query query_length threshold this_pos_Q = Inr (lines, pos_Q') \<longrightarrow>
      (\<exists>sa this_pos_S pos_Q this_length.
         read_SA C (inter_i (gm C (drop (unat this_pos_Q) query) (query_length - this_pos_Q)))
           = Inr sa
         \<and> left_extend C query (scast sa) this_pos_Q
             (match_length (gm C (drop (unat this_pos_Q) query) (query_length - this_pos_Q)))
           = Inr (this_pos_S, pos_Q, this_length)
         \<and> lines =
             (if inter_i (gm C (drop (unat this_pos_Q) query) (query_length - this_pos_Q))
                   = inter_j (gm C (drop (unat this_pos_Q) query) (query_length - this_pos_Q))
                 \<and> threshold \<le> this_length
              then [match_line this_pos_S pos_Q this_length] else [])))
   \<and> match_line s q n
       = printf_zu 8 (s + 1) @ ''  '' @ printf_zu 8 (q + 1) @ ''  '' @ printf_zu 8 n @ [CHR 0x0A]
   \<and> printf_zu 8 v = replicate (8 - length (decimal (unat v))) CHR '' '' @ decimal (unat v)
   \<and> foldl (\<lambda>a c. 10 * a + (of_char c - 48)) 0 (decimal (unat v)) = unat v
   \<and> length (printf_zu 8 v) = max 8 (length (decimal (unat v)))
   \<and> (length (printf_zu 8 v) = 8 \<longleftrightarrow> unat v < 10 ^ 8)"
proof (intro conjI impI)
  assume "anchor_step gm C query query_length threshold this_pos_Q = Inr (lines, pos_Q')"
  then show "\<exists>sa this_pos_S pos_Q this_length.
         read_SA C (inter_i (gm C (drop (unat this_pos_Q) query) (query_length - this_pos_Q)))
           = Inr sa
         \<and> left_extend C query (scast sa) this_pos_Q
             (match_length (gm C (drop (unat this_pos_Q) query) (query_length - this_pos_Q)))
           = Inr (this_pos_S, pos_Q, this_length)
         \<and> lines =
             (if inter_i (gm C (drop (unat this_pos_Q) query) (query_length - this_pos_Q))
                   = inter_j (gm C (drop (unat this_pos_Q) query) (query_length - this_pos_Q))
                 \<and> threshold \<le> this_length
              then [match_line this_pos_S pos_Q this_length] else [])"
    by (rule anchor_step_lines)
next
  show "match_line s q n
       = printf_zu 8 (s + 1) @ ''  '' @ printf_zu 8 (q + 1) @ ''  '' @ printf_zu 8 n @ [CHR 0x0A]"
    by (simp add: match_line_def)
  show "printf_zu 8 v = replicate (8 - length (decimal (unat v))) CHR '' '' @ decimal (unat v)"
    by (simp add: printf_zu_def)
  show "foldl (\<lambda>a c. 10 * a + (of_char c - 48)) 0 (decimal (unat v)) = unat v"
    by (rule decimal_value)
  show "length (printf_zu 8 v) = max 8 (length (decimal (unat v)))"
    by (rule printf_zu_length)
  show "length (printf_zu 8 v) = 8 \<longleftrightarrow> unat v < 10 ^ 8"
    by (rule printf_zu_8_exact)
qed

subsection \<open>The worked examples, evaluated\<close>

lemma replicate_numeral: "replicate (numeral k) x = x # replicate (pred_numeral k) x"
  by (simp add: numeral_eq_Suc)

lemma dist_anchor_loop_unfold:
  "dist_anchor_loop fuel gm C query qlen thr pos out =
     (if pos < qlen
      then (case fuel of
              0 \<Rightarrow> None
            | Suc fuel' \<Rightarrow>
                (case anchor_step gm C query qlen thr pos of
                   Inl e \<Rightarrow> Some (Inl e)
                 | Inr (lines, pos') \<Rightarrow>
                     dist_anchor_loop fuel' gm C query qlen thr pos' (out @ lines)))
      else Some (Inr out))"
  by (cases fuel) auto

lemmas anchor_eval =
  anchor_step_def lookup_table_def read_SA_def read_S_def read_query_def match_length_def
  match_line_def printf_zu_def Let_def replicate_numeral

lemma ACC_first_step:
  "anchor_step lookup_ACC esa_ACC ''CACCA'' 5 2 0
     = Inr ([''       6         1         2'' @ [CHR 0x0A]], 3)"
  by (simp add: anchor_eval lookup_ACC_def esa_ACC_def left_extend.simps decimal.simps)

lemma ACC_second_step:
  "anchor_step lookup_ACC esa_ACC ''CACCA'' 5 2 3
     = Inr ([''       5         3         3'' @ [CHR 0x0A]], 6)"
  by (simp add: anchor_eval lookup_ACC_def esa_ACC_def left_extend.simps decimal.simps)

lemma ACC_run:
  "dist_anchor_loop 5 lookup_ACC esa_ACC ''CACCA'' 5 2 0 []
     = Some (Inr [''       6         1         2'' @ [CHR 0x0A],
                  ''       5         3         3'' @ [CHR 0x0A]])"
  by (simp add: dist_anchor_loop_unfold [of _ lookup_ACC] ACC_first_step ACC_second_step)

lemma ACGT_first_step:
  "anchor_step lookup_ACGT esa_ACGT ''NACGT'' 5 1 0 = Inr ([], 1)"
  by (simp add: anchor_eval lookup_ACGT_def esa_ACGT_def left_extend.simps decimal.simps)

lemma ACGT_second_step:
  "anchor_step lookup_ACGT esa_ACGT ''NACGT'' 5 1 1 = Inl (Read_outside_S (0 - 1))"
  by (simp add: anchor_eval lookup_ACGT_def esa_ACGT_def left_extend.simps decimal.simps
      unsigned_minus_1_eq_mask mask_eq_exp_minus_1)

lemma ACGT_run:
  "dist_anchor_loop 5 lookup_ACGT esa_ACGT ''NACGT'' 5 1 0 [] = Some (Inl (Read_outside_S (0 - 1)))"
  by (simp add: dist_anchor_loop_unfold [of _ lookup_ACGT] ACGT_first_step ACGT_second_step)

theorem dist_anchor_loop_terminates_witness:
  "unat (5 :: size_t) < 2 ^ 63 \<and> (3 :: size_t) < 5
   \<and> anchor_step lookup_ACC esa_ACC ''CACCA'' 5 2 3
       = Inr ([''       5         3         3'' @ [CHR 0x0A]], 6)
   \<and> (6 :: size_t)
       = 3 + match_length (lookup_ACC esa_ACC (drop (unat (3 :: size_t)) ''CACCA'') (5 - 3)) + 1
   \<and> unat (3 :: size_t) < unat (6 :: size_t)
   \<and> (\<exists>r. dist_anchor_loop (unat (5 :: size_t)) lookup_ACC esa_ACC ''CACCA'' 5 2 0 [] = Some r)
   \<and> dist_anchor_loop 5 lookup_ACC esa_ACC ''CACCA'' 5 2 0 []
       = Some (Inr [''       6         1         2'' @ [CHR 0x0A],
                    ''       5         3         3'' @ [CHR 0x0A]])"
proof -
  have small: "unat (5 :: size_t) < 2 ^ 63"
    by simp
  have less: "(3 :: size_t) < 5"
    by simp
  note inst = dist_anchor_loop_terminates [OF small, where this_pos_Q = 3 and gm = lookup_ACC
      and C = esa_ACC and query = "''CACCA''" and threshold = 2
      and lines = "[''       5         3         3'' @ [CHR 0x0A]]" and pos_Q = 6]
  from inst less ACC_second_step have
    "(6 :: size_t)
       = 3 + match_length (lookup_ACC esa_ACC (drop (unat (3 :: size_t)) ''CACCA'') (5 - 3)) + 1"
    and "unat (3 :: size_t) < unat (6 :: size_t)"
    and "\<exists>r. dist_anchor_loop (unat (5 :: size_t)) lookup_ACC esa_ACC ''CACCA'' 5 2 0 [] = Some r"
    by blast+
  with small less ACC_second_step ACC_run show ?thesis
    by blast
qed

theorem anchor_step_emits_witness:
  "anchor_step lookup_ACC esa_ACC ''CACCA'' 5 2 3
     = Inr ([''       5         3         3'' @ [CHR 0x0A]], 6)
   \<and> (\<exists>sa this_pos_S pos_Q this_length.
         read_SA esa_ACC (inter_i (lookup_ACC esa_ACC (drop (unat (3 :: size_t)) ''CACCA'') (5 - 3)))
           = Inr sa
         \<and> left_extend esa_ACC ''CACCA'' (scast sa) 3
             (match_length (lookup_ACC esa_ACC (drop (unat (3 :: size_t)) ''CACCA'') (5 - 3)))
           = Inr (this_pos_S, pos_Q, this_length)
         \<and> [''       5         3         3'' @ [CHR 0x0A]] =
             (if inter_i (lookup_ACC esa_ACC (drop (unat (3 :: size_t)) ''CACCA'') (5 - 3))
                   = inter_j (lookup_ACC esa_ACC (drop (unat (3 :: size_t)) ''CACCA'') (5 - 3))
                 \<and> 2 \<le> this_length
              then [match_line this_pos_S pos_Q this_length] else []))
   \<and> match_line 4 2 3 = ''       5         3         3'' @ [CHR 0x0A]
   \<and> length (printf_zu 8 5) = 8 \<and> unat (5 :: size_t) < 10 ^ 8"
proof -
  note inst = anchor_step_emits [where gm = lookup_ACC and C = esa_ACC and query = "''CACCA''"
      and query_length = 5 and threshold = 2 and this_pos_Q = 3
      and lines = "[''       5         3         3'' @ [CHR 0x0A]]" and pos_Q' = 6
      and s = 4 and q = 2 and n = 3 and v = 5]
  have v: "unat (5 :: size_t) < 10 ^ 8"
    by simp
  from inst ACC_second_step have
    "\<exists>sa this_pos_S pos_Q this_length.
         read_SA esa_ACC (inter_i (lookup_ACC esa_ACC (drop (unat (3 :: size_t)) ''CACCA'') (5 - 3)))
           = Inr sa
         \<and> left_extend esa_ACC ''CACCA'' (scast sa) 3
             (match_length (lookup_ACC esa_ACC (drop (unat (3 :: size_t)) ''CACCA'') (5 - 3)))
           = Inr (this_pos_S, pos_Q, this_length)
         \<and> [''       5         3         3'' @ [CHR 0x0A]] =
             (if inter_i (lookup_ACC esa_ACC (drop (unat (3 :: size_t)) ''CACCA'') (5 - 3))
                   = inter_j (lookup_ACC esa_ACC (drop (unat (3 :: size_t)) ''CACCA'') (5 - 3))
                 \<and> 2 \<le> this_length
              then [match_line this_pos_S pos_Q this_length] else [])"
    by blast
  moreover from inst v have "length (printf_zu 8 5) = 8"
    by blast
  moreover have "match_line 4 2 3 = ''       5         3         3'' @ [CHR 0x0A]"
    by (simp add: anchor_eval decimal.simps)
  ultimately show ?thesis
    using ACC_second_step v by blast
qed

text \<open>
  The claim as written fails for a value of 9 digits: the matches of a subject longer
  than \<open>10 ^ 8\<close> (\<open>main\<close> admits sequences up to \<open>(INT_MAX - 1) / 2 = 1073741823\<close>) are
  printed in fields wider than 8 characters.
\<close>

theorem match_line_wide_counterexample:
  "match_line 99999999 0 4 = ''100000000         1         4'' @ [CHR 0x0A]
   \<and> length (printf_zu 8 (99999999 + 1)) = 9"
  by (simp add: anchor_eval decimal.simps)

text \<open>
  Claim C2 fails on the code: the loop condition tests \<open>this_pos_Q > 0\<close> only. For the
  reference \<open>ACGT\<close> and the query \<open>NACGT\<close> the second iteration finds \<open>ACGT\<close> at
  position 0 of the subject with the cursor of the query at 1, and the test of the left
  extension reads \<open>C->S[this_pos_S - 1]\<close> at index \<open>2 ^ 64 - 1\<close>, outside the subject.
\<close>

theorem left_extension_reads_before_subject:
  "dist_anchor D 5 \<lparr>FLAGS = 16, RANDOM_ANCHOR_PROP = 1 / 20, MIN_LENGTH = 1, version_flag = False\<rparr>
     lookup_ACGT esa_ACGT ''NACGT'' 5 (1 / 2)
     = Some (Inl (Read_outside_S (0 - 1)))
   \<and> left_extend esa_ACGT ''NACGT'' 0 1 4 = Inl (Read_outside_S (0 - 1))
   \<and> unat (0 - 1 :: size_t) = 18446744073709551615
   \<and> length (esa_S esa_ACGT) = 10"
proof -
  have "left_extend esa_ACGT ''NACGT'' 0 1 4 = Inl (Read_outside_S (0 - 1))"
    by (rule left_extend_at_subject_start) (simp_all add: esa_ACGT_def)
  moreover have "unat (0 - 1 :: size_t) = 18446744073709551615"
    by (simp add: unsigned_minus_1_eq_mask mask_eq_exp_minus_1)
  moreover have "length (esa_S esa_ACGT) = 10"
    by (simp add: esa_ACGT_def)
  ultimately show ?thesis
    by (simp add: dist_anchor_def dist_anchor_threshold_def ACGT_run)
qed

subsection \<open>The branch after the loop\<close>

lemma identical_branch_iff: "identical_branch query_length \<noteq> [] \<longleftrightarrow> query_length = 0"
  by (simp add: identical_branch_def)

lemma dist_anchor_positive_length:
  assumes "0 < query_length"
  shows "dist_anchor D fuel G gm C query query_length gc
    = (case dist_anchor_threshold D G C gc of
         None \<Rightarrow> None
       | Some threshold \<Rightarrow> dist_anchor_loop fuel gm C query query_length threshold 0 [])"
proof -
  have "identical_branch query_length = []"
    using assms identical_branch_iff [of query_length] by auto
  then show ?thesis
    by (auto simp: dist_anchor_def split: option.splits sum.splits)
qed

text \<open>
  Claim C9. \<open>last_length\<close> is 0 when the branch after the loop tests it, so the test
  \<open>last_length >= query_length\<close> holds exactly for \<open>query_length = 0\<close>. For a query of
  positive length the branch prints nothing and the output of \<open>dist_anchor\<close> is the
  output of its main loop.
\<close>

theorem identical_branch_silent:
  "(0 < query_length \<longrightarrow>
      identical_branch query_length = []
      \<and> dist_anchor D fuel G gm C query query_length gc
          = (case dist_anchor_threshold D G C gc of
               None \<Rightarrow> None
             | Some threshold \<Rightarrow> dist_anchor_loop fuel gm C query query_length threshold 0 []))
   \<and> (identical_branch query_length \<noteq> [] \<longleftrightarrow> query_length = 0)"
proof (intro conjI impI)
  assume pos: "0 < query_length"
  then show "identical_branch query_length = []"
    using identical_branch_iff [of query_length] by auto
  from pos show "dist_anchor D fuel G gm C query query_length gc
          = (case dist_anchor_threshold D G C gc of
               None \<Rightarrow> None
             | Some threshold \<Rightarrow> dist_anchor_loop fuel gm C query query_length threshold 0 [])"
    by (rule dist_anchor_positive_length)
next
  show "identical_branch query_length \<noteq> [] \<longleftrightarrow> query_length = 0"
    by (rule identical_branch_iff)
qed

theorem identical_branch_silent_witness:
  "(0 :: size_t) < 5 \<and> identical_branch 5 = []
   \<and> dist_anchor exact_double_ops 5 \<lparr>FLAGS = 16, RANDOM_ANCHOR_PROP = 1 / 20, MIN_LENGTH = 2, version_flag = False\<rparr>
        lookup_ACC esa_ACC ''CACCA'' 5 (1 / 2)
      = Some (Inr [''       6         1         2'' @ [CHR 0x0A],
                   ''       5         3         3'' @ [CHR 0x0A]])
   \<and> identical_branch 0 = [''0 0 0'' @ [CHR 0x0A]]"
proof -
  have pos: "(0 :: size_t) < 5"
    by simp
  have thr: "dist_anchor_threshold exact_double_ops
      \<lparr>FLAGS = 16, RANDOM_ANCHOR_PROP = 1 / 20, MIN_LENGTH = 2, version_flag = False\<rparr>
      esa_ACC (1 / 2) = Some 2"
    by (simp add: dist_anchor_threshold_def)
  note inst = identical_branch_silent [where query_length = 5 and fuel = 5
      and D = exact_double_ops
      and G = "\<lparr>FLAGS = 16, RANDOM_ANCHOR_PROP = 1 / 20, MIN_LENGTH = 2, version_flag = False\<rparr>"
      and gm = lookup_ACC and C = esa_ACC and query = "''CACCA''" and gc = "1 / 2"]
  from inst pos have "identical_branch (5 :: size_t) = []"
    and "dist_anchor exact_double_ops 5 \<lparr>FLAGS = 16, RANDOM_ANCHOR_PROP = 1 / 20, MIN_LENGTH = 2, version_flag = False\<rparr>
        lookup_ACC esa_ACC ''CACCA'' 5 (1 / 2)
      = (case dist_anchor_threshold exact_double_ops
            \<lparr>FLAGS = 16, RANDOM_ANCHOR_PROP = 1 / 20, MIN_LENGTH = 2, version_flag = False\<rparr>
            esa_ACC (1 / 2) of
           None \<Rightarrow> None
         | Some threshold \<Rightarrow> dist_anchor_loop 5 lookup_ACC esa_ACC ''CACCA'' 5 threshold 0 [])"
    by blast+
  moreover have "identical_branch 0 = [''0 0 0'' @ [CHR 0x0A]]"
    by (simp add: identical_branch_def identical_line_def printf_zu_def decimal.simps)
  ultimately show ?thesis
    using pos by (simp add: thr ACC_run)
qed

subsection \<open>The threshold\<close>

lemma shuprop_1_quarter_8: "shuprop exact_double_ops (Suc 0) (1 / 4) 8 < 1 / 2"
  by (simp add: shuprop_def binomial_coefficient_def Let_def exact_double_ops_simps power_divide)

lemma shuprop_2_quarter_8: "shuprop exact_double_ops 2 (1 / 4) 8 \<ge> 1 / 2"
  by (simp add: shuprop_def binomial_coefficient_def Let_def exact_double_ops_simps power_divide)

lemma minAnchorLength_half_8: "minAnchorLength exact_double_ops (1 / 2) (1 / 2) 8 = Some 3"
proof -
  have "minAnchorLength_loop exact_double_ops (1 / 2) (1 / 2) 8 0 1 = Some ((2 + 1) mod 2 ^ 64)"
  proof (rule minAnchorLength_loop_finds)
    show "\<forall>z. 1 \<le> z \<and> z < 2 \<longrightarrow>
        shuprop exact_double_ops z (d_div exact_double_ops (1 / 2) 2) 8
          < d_sub exact_double_ops 1 (1 / 2)"
    proof (intro allI impI)
      fix z :: nat
      assume "1 \<le> z \<and> z < 2"
      then have "z = Suc 0" by simp
      then show "shuprop exact_double_ops z (d_div exact_double_ops (1 / 2) 2) 8
          < d_sub exact_double_ops 1 (1 / 2)"
        using shuprop_1_quarter_8 by (simp add: exact_double_ops_simps)
    qed
    show "d_sub exact_double_ops 1 (1 / 2)
        \<le> shuprop exact_double_ops 2 (d_div exact_double_ops (1 / 2) 2) 8"
      using shuprop_2_quarter_8 by (simp add: exact_double_ops_simps)
  qed (simp_all add: exact_double_ops_simps)
  then show ?thesis
    by (simp add: minAnchorLength_def)
qed

text \<open>
  Claim C6, as the code has it. The threshold is \<open>MIN_LENGTH\<close> converted from \<open>int\<close>
  to \<open>size_t\<close> whenever \<open>MIN_LENGTH\<close> is not zero: the same number when
  \<open>MIN_LENGTH\<close> is positive, and \<open>MIN_LENGTH + 2 ^ 64\<close> when it is negative. When
  \<open>MIN_LENGTH\<close> is zero the threshold is the result of
  \<open>minAnchorLength(RANDOM_ANCHOR_PROP, gc, C->len)\<close>. The threshold depends on the
  globals, the subject and its GC content only: it is the same for every query.
\<close>

theorem dist_anchor_threshold_value:
  "(0 < sint (MIN_LENGTH G) \<longrightarrow>
      (\<exists>thr. dist_anchor_threshold D G C gc = Some thr \<and> int (unat thr) = sint (MIN_LENGTH G)))
   \<and> (sint (MIN_LENGTH G) < 0 \<longrightarrow>
      (\<exists>thr. dist_anchor_threshold D G C gc = Some thr
         \<and> int (unat thr) = 2 ^ 64 + sint (MIN_LENGTH G)))
   \<and> (MIN_LENGTH G = 0 \<longrightarrow>
      dist_anchor_threshold D G C gc
        = map_option of_nat
            (minAnchorLength D (RANDOM_ANCHOR_PROP G) gc (unat (scast (esa_len C) :: size_t))))
   \<and> dist_anchor D fuel G gm C query query_length gc
      = (case dist_anchor_threshold D G C gc of
           None \<Rightarrow> None
         | Some threshold \<Rightarrow>
             (case dist_anchor_loop fuel gm C query query_length threshold 0 [] of
                None \<Rightarrow> None
              | Some (Inl e) \<Rightarrow> Some (Inl e)
              | Some (Inr out) \<Rightarrow> Some (Inr (out @ identical_branch query_length))))"
proof (intro conjI impI)
  assume pos: "0 < sint (MIN_LENGTH G)"
  then have "MIN_LENGTH G \<noteq> 0"
    by auto
  moreover have "int (unat (scast (MIN_LENGTH G) :: size_t)) = sint (MIN_LENGTH G)"
    using pos by (simp add: unat_scast_nonneg)
  ultimately show "\<exists>thr. dist_anchor_threshold D G C gc = Some thr
      \<and> int (unat thr) = sint (MIN_LENGTH G)"
    by (simp add: dist_anchor_threshold_def)
next
  assume neg: "sint (MIN_LENGTH G) < 0"
  then have "MIN_LENGTH G \<noteq> 0"
    by auto
  moreover have "int (unat (scast (MIN_LENGTH G) :: size_t)) = 2 ^ 64 + sint (MIN_LENGTH G)"
    using uint_scast_neg [OF neg] by (simp add: uint_nat [symmetric])
  ultimately show "\<exists>thr. dist_anchor_threshold D G C gc = Some thr
      \<and> int (unat thr) = 2 ^ 64 + sint (MIN_LENGTH G)"
    by (simp add: dist_anchor_threshold_def)
next
  assume "MIN_LENGTH G = 0"
  then show "dist_anchor_threshold D G C gc
        = map_option of_nat
            (minAnchorLength D (RANDOM_ANCHOR_PROP G) gc (unat (scast (esa_len C) :: size_t)))"
    by (simp add: dist_anchor_threshold_def)
next
  show "dist_anchor D fuel G gm C query query_length gc
      = (case dist_anchor_threshold D G C gc of
           None \<Rightarrow> None
         | Some threshold \<Rightarrow>
             (case dist_anchor_loop fuel gm C query query_length threshold 0 [] of
                None \<Rightarrow> None
              | Some (Inl e) \<Rightarrow> Some (Inl e)
              | Some (Inr out) \<Rightarrow> Some (Inr (out @ identical_branch query_length))))"
    by (simp add: dist_anchor_def)
qed

theorem dist_anchor_threshold_value_witness:
  "0 < sint (2 :: c_int)
   \<and> (\<exists>thr. dist_anchor_threshold exact_double_ops
          \<lparr>FLAGS = 16, RANDOM_ANCHOR_PROP = 1 / 20, MIN_LENGTH = 2, version_flag = False\<rparr>
          esa_ACC (1 / 2) = Some thr \<and> int (unat thr) = 2)
   \<and> sint (- 1 :: c_int) < 0
   \<and> (\<exists>thr. dist_anchor_threshold exact_double_ops
          \<lparr>FLAGS = 16, RANDOM_ANCHOR_PROP = 1 / 20, MIN_LENGTH = - 1, version_flag = False\<rparr>
          esa_ACC (1 / 2) = Some thr \<and> int (unat thr) = 18446744073709551615)
   \<and> dist_anchor_threshold exact_double_ops
        \<lparr>FLAGS = 16, RANDOM_ANCHOR_PROP = 1 / 2, MIN_LENGTH = 0, version_flag = False\<rparr>
        esa_ACC (1 / 2) = Some 3"
proof -
  have a: "0 < sint (2 :: c_int)" and b: "sint (- 1 :: c_int) < 0"
    by simp_all
  have "\<exists>thr. dist_anchor_threshold exact_double_ops
          \<lparr>FLAGS = 16, RANDOM_ANCHOR_PROP = 1 / 20, MIN_LENGTH = 2, version_flag = False\<rparr>
          esa_ACC (1 / 2) = Some thr \<and> int (unat thr) = 2"
    using a dist_anchor_threshold_value
      [where D = exact_double_ops and G = "\<lparr>FLAGS = 16, RANDOM_ANCHOR_PROP = 1 / 20, MIN_LENGTH = 2, version_flag = False\<rparr>"
        and C = esa_ACC and gc = "1 / 2"]
    by simp
  moreover have "\<exists>thr. dist_anchor_threshold exact_double_ops
          \<lparr>FLAGS = 16, RANDOM_ANCHOR_PROP = 1 / 20, MIN_LENGTH = - 1, version_flag = False\<rparr>
          esa_ACC (1 / 2) = Some thr \<and> int (unat thr) = 18446744073709551615"
    using b dist_anchor_threshold_value
      [where D = exact_double_ops and G = "\<lparr>FLAGS = 16, RANDOM_ANCHOR_PROP = 1 / 20, MIN_LENGTH = - 1, version_flag = False\<rparr>"
        and C = esa_ACC and gc = "1 / 2"]
    by simp
  moreover have "dist_anchor_threshold exact_double_ops
        \<lparr>FLAGS = 16, RANDOM_ANCHOR_PROP = 1 / 2, MIN_LENGTH = 0, version_flag = False\<rparr>
        esa_ACC (1 / 2) = Some 3"
    using dist_anchor_threshold_value
      [where D = exact_double_ops and G = "\<lparr>FLAGS = 16, RANDOM_ANCHOR_PROP = 1 / 2, MIN_LENGTH = 0, version_flag = False\<rparr>"
        and C = esa_ACC and gc = "1 / 2"]
    by (simp add: esa_ACC_def minAnchorLength_half_8)
  ultimately show ?thesis
    using a b by blast
qed

text \<open>
  The claim as written fails for a negative \<open>MIN_LENGTH\<close>. The option \<open>-l\<close> with the
  argument \<open>18446744073709551615\<close> (or \<open>-1\<close>, which \<open>strtoul\<close> converts to the same
  value) stores \<open>-1\<close> in \<open>MIN_LENGTH\<close>; the threshold is then \<open>2 ^ 64 - 1\<close>, not \<open>-1\<close>,
  and no match reaches it.
\<close>

theorem threshold_negative_counterexample:
  "parse_option
     \<lparr>F_FORWARD = 16, F_REVCOMP = 32, F_JOIN = 4, F_VERBOSE = 1, F_EXTRA_VERBOSE = 2\<rparr>
     (Opt_l (Some 18446744073709551615))
     \<lparr>FLAGS = 16, RANDOM_ANCHOR_PROP = 1 / 20, MIN_LENGTH = 0, version_flag = False\<rparr>
     = Inr \<lparr>FLAGS = 16, RANDOM_ANCHOR_PROP = 1 / 20, MIN_LENGTH = - 1, version_flag = False\<rparr>
   \<and> (- 1 :: c_int) \<noteq> 0 \<and> sint (- 1 :: c_int) = - 1
   \<and> dist_anchor_threshold exact_double_ops
        \<lparr>FLAGS = 16, RANDOM_ANCHOR_PROP = 1 / 20, MIN_LENGTH = - 1, version_flag = False\<rparr>
        esa_ACC (1 / 2) = Some 18446744073709551615
   \<and> int (unat (18446744073709551615 :: size_t)) \<noteq> sint (- 1 :: c_int)"
  by (simp add: dist_anchor_threshold_def)

end
